theory Spec2Isabelle
  imports Complex_Main "HOL-Library.Word"
begin

section \<open>Data model\<close>

text \<open>
  The audio pipeline of the translator lives in two files: the pure helpers of
  \<^verbatim>\<open>audioUtils\<close> (sample-format conversion, base64 transport, decimation) and the
  React hook \<^verbatim>\<open>useTranslator\<close> (session life cycle and playback scheduling).

  JavaScript numbers are modelled by \<^typ>\<open>real\<close>: a finite \<^verbatim>\<open>Float32Array\<close> element
  widens to a double without loss, its product with \<^verbatim>\<open>0x7FFF\<close> or \<^verbatim>\<open>0x8000\<close> has
  at most 39 significant bits and is therefore exact in a double, and an int16 divided
  by \<^verbatim>\<open>32768.0\<close> is exact as well. Clock times and durations are reals too. The
  sample rates given to \<^verbatim>\<open>downsampleBuffer\<close> and the numbers it computes from them are
  binary64 values, whose quotients and products are rounded. Bytes are \<^typ>\<open>8 word\<close>,
  the elements of an \<^verbatim>\<open>Int16Array\<close> are \<^typ>\<open>16 word\<close> read with \<^const>\<open>sint\<close>.
  A JavaScript string is the list of its UTF-16 code units.
\<close>

type_synonym byte = "8 word"
type_synonym int16 = "16 word"
type_synonym jsstring = "nat list"

datatype js_error =
    RangeError
  | InvalidCharacterError
  | InvalidStateError
  | NotSupportedError
  | TypeError

datatype ConnectionState = DISCONNECTED | CONNECTING | CONNECTED | ERROR

section \<open>audioUtils: sample-format conversion\<close>

text \<open>
  \<^verbatim>\<open>DataView.setInt16(offset, v, true)\<close> converts the number with the abstract
  operation ToInt16 (truncate towards zero, then wrap modulo \<open>2^16\<close>) and stores the
  low byte first.
\<close>

definition js_trunc :: "real \<Rightarrow> int" where
  "js_trunc x = (if x < 0 then \<lceil>x\<rceil> else \<lfloor>x\<rfloor>)"

definition ToInt16 :: "real \<Rightarrow> int16" where
  "ToInt16 x = word_of_int (js_trunc x)"

definition setInt16_le :: "int16 \<Rightarrow> byte list" where
  "setInt16_le w = [ucast w, ucast (drop_bit 8 w)]"

definition pcm_scaled :: "real \<Rightarrow> real" where
  "pcm_scaled x =
     (let s = max (- 1) (min 1 x)
      in if s < 0 then s * 32768 else s * 32767)"

definition pcm_sample :: "real \<Rightarrow> int16" where
  "pcm_sample x = ToInt16 (pcm_scaled x)"

fun float32To16BitPCM :: "real list \<Rightarrow> byte list" where
  "float32To16BitPCM [] = []"
| "float32To16BitPCM (x # xs) = setInt16_le (pcm_sample x) @ float32To16BitPCM xs"

text \<open>
  \<^verbatim>\<open>new Int16Array(arrayBuffer)\<close> throws a RangeError when the byte length is odd;
  otherwise it views each pair of bytes as one little-endian signed sample.
\<close>

definition getInt16_le :: "byte \<Rightarrow> byte \<Rightarrow> int16" where
  "getInt16_le lo hi = or (push_bit 8 (ucast hi)) (ucast lo)"

fun Int16Array :: "byte list \<Rightarrow> js_error + int16 list" where
  "Int16Array [] = Inr []"
| "Int16Array [b] = Inl RangeError"
| "Int16Array (lo # hi # bs) =
     (case Int16Array bs of Inl e \<Rightarrow> Inl e | Inr ws \<Rightarrow> Inr (getInt16_le lo hi # ws))"

fun int16ToFloat32 :: "int16 list \<Rightarrow> real list" where
  "int16ToFloat32 [] = []"
| "int16ToFloat32 (w # ws) = real_of_int (sint w) / 32768 # int16ToFloat32 ws"

section \<open>audioUtils: base64 transport\<close>

text \<open>
  \<^verbatim>\<open>btoa\<close> and \<^verbatim>\<open>atob\<close> are browser built-ins; they are modelled after the HTML
  standard. \<^verbatim>\<open>btoa\<close> rejects a string holding a code unit above 255 and otherwise
  emits the RFC 4648 encoding with \<^verbatim>\<open>=\<close> padding. \<^verbatim>\<open>atob\<close> is the standard's
  forgiving decoder: ASCII whitespace is dropped, one or two trailing \<^verbatim>\<open>=\<close> are
  removed when the length is a multiple of four, a remaining length of \<open>1\<close> modulo
  \<open>4\<close> or a character outside the alphabet is an error, and the bits left over in a
  final group of two or three characters are discarded.
\<close>

definition b64_char :: "nat \<Rightarrow> nat" where
  "b64_char n =
     (if n < 26 then 65 + n
      else if n < 52 then 71 + n
      else if n < 62 then n - 4
      else if n = 62 then 43 else 47)"

definition b64_value :: "nat \<Rightarrow> nat option" where
  "b64_value c =
     (if 65 \<le> c \<and> c \<le> 90 then Some (c - 65)
      else if 97 \<le> c \<and> c \<le> 122 then Some (c - 71)
      else if 48 \<le> c \<and> c \<le> 57 then Some (c + 4)
      else if c = 43 then Some 62
      else if c = 47 then Some 63
      else None)"

fun sextets :: "nat list \<Rightarrow> nat list" where
  "sextets (a # b # c # rest) =
     [a div 4, (a mod 4) * 16 + b div 16, (b mod 16) * 4 + c div 64, c mod 64] @ sextets rest"
| "sextets [a, b] = [a div 4, (a mod 4) * 16 + b div 16, (b mod 16) * 4]"
| "sextets [a] = [a div 4, (a mod 4) * 16]"
| "sextets [] = []"

definition b64_padding :: "nat \<Rightarrow> nat list" where
  "b64_padding n = (if n mod 3 = 1 then [61, 61] else if n mod 3 = 2 then [61] else [])"

definition btoa :: "jsstring \<Rightarrow> js_error + jsstring" where
  "btoa s =
     (if list_ex (\<lambda>c. 255 < c) s then Inl InvalidCharacterError
      else Inr (map b64_char (sextets s) @ b64_padding (length s)))"

definition ascii_whitespace :: "nat \<Rightarrow> bool" where
  "ascii_whitespace c \<longleftrightarrow> c = 9 \<or> c = 10 \<or> c = 12 \<or> c = 13 \<or> c = 32"

definition strip_padding :: "jsstring \<Rightarrow> jsstring" where
  "strip_padding d =
     (if length d mod 4 = 0 \<and> d \<noteq> [] \<and> last d = 61
      then (let d1 = butlast d in if d1 \<noteq> [] \<and> last d1 = 61 then butlast d1 else d1)
      else d)"

fun those_values :: "nat list \<Rightarrow> nat list option" where
  "those_values [] = Some []"
| "those_values (c # cs) =
     (case b64_value c of
        None \<Rightarrow> None
      | Some v \<Rightarrow> (case those_values cs of None \<Rightarrow> None | Some vs \<Rightarrow> Some (v # vs)))"

fun octets :: "nat list \<Rightarrow> nat list" where
  "octets (w # x # y # z # rest) =
     [w * 4 + x div 16, (x mod 16) * 16 + y div 4, (y mod 4) * 64 + z] @ octets rest"
| "octets [w, x, y] = [w * 4 + x div 16, (x mod 16) * 16 + y div 4]"
| "octets [w, x] = [w * 4 + x div 16]"
| "octets [w] = []"
| "octets [] = []"

definition atob :: "jsstring \<Rightarrow> js_error + jsstring" where
  "atob s =
     (let d = strip_padding (filter (\<lambda>c. \<not> ascii_whitespace c) s)
      in if length d mod 4 = 1 then Inl InvalidCharacterError
         else (case those_values d of
                 None \<Rightarrow> Inl InvalidCharacterError
               | Some vs \<Rightarrow> Inr (octets vs)))"

text \<open>
  \<^verbatim>\<open>arrayBufferToBase64\<close> appends \<^verbatim>\<open>String.fromCharCode(bytes[i])\<close> for every byte and
  hands the string to \<^verbatim>\<open>btoa\<close>; \<^verbatim>\<open>base64ToArrayBuffer\<close> stores
  \<^verbatim>\<open>charCodeAt(i)\<close> of the decoded string into a \<^verbatim>\<open>Uint8Array\<close>, which keeps the low
  eight bits.
\<close>

fun fromCharCodes :: "byte list \<Rightarrow> jsstring" where
  "fromCharCodes [] = []"
| "fromCharCodes (b # bs) = unat b # fromCharCodes bs"

definition arrayBufferToBase64 :: "byte list \<Rightarrow> js_error + jsstring" where
  "arrayBufferToBase64 buffer = btoa (fromCharCodes buffer)"

fun charCodes :: "jsstring \<Rightarrow> byte list" where
  "charCodes [] = []"
| "charCodes (c # cs) = of_nat c # charCodes cs"

definition base64ToArrayBuffer :: "jsstring \<Rightarrow> js_error + byte list" where
  "base64ToArrayBuffer base64 =
     (case atob base64 of Inl e \<Rightarrow> Inl e | Inr binaryString \<Rightarrow> Inr (charCodes binaryString))"

section \<open>audioUtils: decimation\<close>

text \<open>
  The sample rates and every number \<^verbatim>\<open>downsampleBuffer\<close> computes from them are
  IEEE 754 binary64 values, and the quotients and products are rounded: a \<open>number\<close>
  is a finite value, an infinity or NaN. The two zeros are identified; the sign of a
  zero would only choose the sign of an infinity, and \<^verbatim>\<open>downsampleBuffer\<close> treats both
  infinities alike. \<open>binary64\<close> rounds a real to the nearest double, ties to the even
  significand: a value in the binade \<open>[2^k, 2^(k+1))\<close> is rounded to a multiple of
  \<open>2^(k-52)\<close>, below \<open>2^-1022\<close> to a multiple of \<open>2^-1074\<close>, and a rounded value of
  \<open>2^1024\<close> or more is an infinity. The samples themselves are only copied and stay reals.
\<close>

datatype number = Finite real | PosInf | NegInf | NaN

definition pow2 :: "int \<Rightarrow> real" where
  "pow2 e = (if 0 \<le> e then 2 ^ nat e else 1 / 2 ^ nat (- e))"

definition round_half_even :: "real \<Rightarrow> int" where
  "round_half_even z =
     (let f = \<lfloor>z\<rfloor>; d = z - of_int f
      in if d < 1 / 2 then f
         else if 1 / 2 < d then f + 1
         else if even f then f else f + 1)"

definition binary64 :: "real \<Rightarrow> number" where
  "binary64 x =
     (if x = 0 then Finite 0
      else
        let a = \<bar>x\<bar>;
            e = max \<lfloor>log 2 a\<rfloor> (- 1022) - 52;
            y = of_int (round_half_even (a / pow2 e)) * pow2 e
        in if 2 ^ 1024 \<le> y then (if 0 < x then PosInf else NegInf)
           else Finite (if 0 < x then y else - y))"

text \<open>The operators \<^verbatim>\<open>===\<close>, \<^verbatim>\<open><\<close>, \<^verbatim>\<open>/\<close> and \<^verbatim>\<open>*\<close> on numbers.\<close>

fun num_eq :: "number \<Rightarrow> number \<Rightarrow> bool" where
  "num_eq (Finite x) (Finite y) = (x = y)"
| "num_eq PosInf PosInf = True"
| "num_eq NegInf NegInf = True"
| "num_eq a b = False"

fun num_less :: "number \<Rightarrow> number \<Rightarrow> bool" where
  "num_less NaN b = False"
| "num_less a NaN = False"
| "num_less (Finite x) (Finite y) = (x < y)"
| "num_less (Finite x) PosInf = True"
| "num_less NegInf (Finite y) = True"
| "num_less NegInf PosInf = True"
| "num_less a b = False"

fun num_div :: "number \<Rightarrow> number \<Rightarrow> number" where
  "num_div NaN b = NaN"
| "num_div a NaN = NaN"
| "num_div (Finite x) (Finite y) =
     (if y = 0 then (if x = 0 then NaN else if 0 < x then PosInf else NegInf)
      else binary64 (x / y))"
| "num_div (Finite x) PosInf = Finite 0"
| "num_div (Finite x) NegInf = Finite 0"
| "num_div PosInf (Finite y) = (if y < 0 then NegInf else PosInf)"
| "num_div NegInf (Finite y) = (if y < 0 then PosInf else NegInf)"
| "num_div a b = NaN"

fun num_mul :: "number \<Rightarrow> number \<Rightarrow> number" where
  "num_mul NaN b = NaN"
| "num_mul a NaN = NaN"
| "num_mul (Finite x) (Finite y) = binary64 (x * y)"
| "num_mul (Finite x) PosInf = (if x = 0 then NaN else if 0 < x then PosInf else NegInf)"
| "num_mul (Finite x) NegInf = (if x = 0 then NaN else if 0 < x then NegInf else PosInf)"
| "num_mul PosInf (Finite y) = (if y = 0 then NaN else if 0 < y then PosInf else NegInf)"
| "num_mul NegInf (Finite y) = (if y = 0 then NaN else if 0 < y then NegInf else PosInf)"
| "num_mul PosInf PosInf = PosInf"
| "num_mul NegInf NegInf = PosInf"
| "num_mul a b = NegInf"

text \<open>
  \<^verbatim>\<open>Math.round\<close> returns the nearest integer, a tie going up; on a double this is
  exact. \<^verbatim>\<open>new Float32Array(n)\<close> converts its argument with ToIndex: NaN counts as
  0, a finite value is truncated, and a value that is infinite, negative or above
  \<open>2^53 - 1\<close> is a RangeError. (An engine also throws a RangeError above its own,
  smaller, maximal length.)
\<close>

fun Math_round :: "number \<Rightarrow> number" where
  "Math_round (Finite x) = Finite (of_int \<lfloor>x + 1 / 2\<rfloor>)"
| "Math_round a = a"

fun ToIndex :: "number \<Rightarrow> js_error + nat" where
  "ToIndex NaN = Inr 0"
| "ToIndex (Finite v) =
     (if js_trunc v < 0 \<or> 2 ^ 53 - 1 < js_trunc v then Inl RangeError
      else Inr (nat (js_trunc v)))"
| "ToIndex a = Inl RangeError"

definition resampledLength :: "nat \<Rightarrow> number \<Rightarrow> number" where
  "resampledLength len sampleRateRatio = Math_round (num_div (Finite (real len)) sampleRateRatio)"

definition sourceIndex :: "number \<Rightarrow> nat \<Rightarrow> number" where
  "sourceIndex sampleRateRatio i =
     (let originalIndex = num_mul (Finite (real i)) sampleRateRatio in Math_round originalIndex)"

text \<open>
  The body of the loop: \<^verbatim>\<open>result[i]\<close> starts out as 0 and is written only under the
  bounds guard. The constant \<^verbatim>\<open>nextOriginalIndex\<close> is computed and never used, so it
  is left out. The loop runs only when the new length is at least 1, which needs a
  positive ratio, so the index is never negative there (lemma \<open>sourceIndex_not_negative\<close>
  below) and the read at a negative index, which would store NaN, cannot occur; the
  model reads position 0 in that case.
\<close>

fun position :: "number \<Rightarrow> nat" where
  "position (Finite v) = nat \<lfloor>v\<rfloor>"
| "position a = 0"

definition copied_sample :: "real list \<Rightarrow> number \<Rightarrow> real" where
  "copied_sample buffer index =
     (if num_less index (Finite (real (length buffer))) then buffer ! position index else 0)"

definition downsampleBuffer :: "real list \<Rightarrow> number \<Rightarrow> number \<Rightarrow> js_error + real list" where
  "downsampleBuffer buffer inputSampleRate outputSampleRate =
     (if num_eq inputSampleRate outputSampleRate then Inr buffer
      else if num_less inputSampleRate outputSampleRate then Inr buffer
      else
        let sampleRateRatio = num_div inputSampleRate outputSampleRate;
            newLength = resampledLength (length buffer) sampleRateRatio
        in case ToIndex newLength of
             Inl e \<Rightarrow> Inl e
           | Inr n \<Rightarrow>
               Inr (map (\<lambda>i. copied_sample buffer (sourceIndex sampleRateRatio i)) [0 ..< n]))"

section \<open>audioUtils: blobs and decoded buffers\<close>

record Blob =
  blob_data :: jsstring
  blob_rate :: real

definition createPcmBlob :: "real list \<Rightarrow> real \<Rightarrow> js_error + Blob" where
  "createPcmBlob data' sampleRate =
     (case arrayBufferToBase64 (float32To16BitPCM data') of
        Inl e \<Rightarrow> Inl e
      | Inr base64 \<Rightarrow> Inr \<lparr>blob_data = base64, blob_rate = sampleRate\<rparr>)"

record AudioBuffer =
  channelData :: "real list"
  sampleRate :: real

definition duration :: "AudioBuffer \<Rightarrow> real" where
  "duration b = real (length (channelData b)) / sampleRate b"

text \<open>
  \<^verbatim>\<open>createBuffer(1, length, sampleRate)\<close> throws NotSupportedError when the frame
  count is zero or the rate is not positive.
\<close>

definition createBuffer :: "nat \<Rightarrow> real \<Rightarrow> js_error + AudioBuffer" where
  "createBuffer n rate =
     (if n = 0 \<or> rate \<le> 0 then Inl NotSupportedError
      else Inr \<lparr>channelData = replicate n 0, sampleRate = rate\<rparr>)"

definition decodeAudioData :: "jsstring \<Rightarrow> real \<Rightarrow> js_error + AudioBuffer" where
  "decodeAudioData base64Data rate =
     (case base64ToArrayBuffer base64Data of
        Inl e \<Rightarrow> Inl e
      | Inr arrayBuffer \<Rightarrow>
          (case Int16Array arrayBuffer of
             Inl e \<Rightarrow> Inl e
           | Inr dataInt16 \<Rightarrow>
               (let float32Data = int16ToFloat32 dataInt16
                in case createBuffer (length float32Data) rate of
                     Inl e \<Rightarrow> Inl e
                   | Inr audioBuffer \<Rightarrow> Inr (audioBuffer\<lparr>channelData := float32Data\<rparr>))))"

section \<open>useTranslator: state of the hook\<close>

text \<open>
  The hook keeps its state in React state cells and refs. Browser objects are named by
  natural numbers. A buffer source node records when it was told to start, how long its
  buffer lasts and whether it is still playing; the list \<open>nodes\<close> holds every node the
  hook created, in creation order, and a handle is an index into it. \<open>sourcesRef\<close>
  is the \<^verbatim>\<open>Set\<close> of live handles in insertion order. \<open>effects\<close> logs the calls made
  on the session, the microphone tracks, the audio graph and the contexts.
\<close>

datatype node_status = Unstarted | Playing | Stopped

record source_node =
  node_start :: real
  node_duration :: real
  node_status :: node_status

datatype effect =
    SessionClose nat
  | TracksStop nat
  | ProcessorDisconnect nat
  | InputSourceDisconnect nat
  | ContextClose nat

record translator =
  connectionState :: ConnectionState
  error :: "string option"
  inputContextRef :: "nat option"
  outputContextRef :: "nat option"
  inputSourceRef :: "nat option"
  processorRef :: "nat option"
  inputAnalyserRef :: "nat option"
  outputAnalyserRef :: "nat option"
  streamRef :: "nat option"
  sessionPromiseRef :: "nat option"
  nextStartTimeRef :: real
  sourcesRef :: "nat list"
  nodes :: "source_node list"
  effects :: "effect list"

definition initial_state :: translator where
  "initial_state =
     \<lparr>connectionState = DISCONNECTED, error = None,
      inputContextRef = None, outputContextRef = None, inputSourceRef = None,
      processorRef = None, inputAnalyserRef = None, outputAnalyserRef = None,
      streamRef = None, sessionPromiseRef = None,
      nextStartTimeRef = 0, sourcesRef = [], nodes = [], effects = []\<rparr>"

definition and_then :: "js_error + 'a \<Rightarrow> ('a \<Rightarrow> js_error + 'b) \<Rightarrow> js_error + 'b" where
  "and_then r f = (case r of Inl e \<Rightarrow> Inl e | Inr x \<Rightarrow> f x)"

text \<open>A method call through a ref: on \<^verbatim>\<open>null\<close> it is a TypeError.\<close>

definition invoke :: "nat option \<Rightarrow> (nat \<Rightarrow> effect) \<Rightarrow> translator \<Rightarrow> js_error + translator" where
  "invoke ref eff s =
     (case ref of
        None \<Rightarrow> Inl TypeError
      | Some h \<Rightarrow> Inr (s\<lparr>effects := effects s @ [eff h]\<rparr>))"

definition status_of :: "translator \<Rightarrow> nat \<Rightarrow> node_status" where
  "status_of s h = (if h < length (nodes s) then node_status (nodes s ! h) else Unstarted)"

text \<open>
  \<^verbatim>\<open>source.stop()\<close> throws InvalidStateError on a node that is not playing (never
  started, or stopped before); the callers wrap it in \<^verbatim>\<open>try { } catch(e) {}\<close>.
\<close>

definition source_stop :: "nat \<Rightarrow> source_node list \<Rightarrow> js_error + source_node list" where
  "source_stop h ns =
     (if h < length ns \<and> node_status (ns ! h) = Playing
      then Inr (ns[h := (ns ! h)\<lparr>node_status := Stopped\<rparr>])
      else Inl InvalidStateError)"

fun stop_each :: "nat list \<Rightarrow> source_node list \<Rightarrow> source_node list" where
  "stop_each [] ns = ns"
| "stop_each (h # hs) ns =
     stop_each hs (case source_stop h ns of Inl e \<Rightarrow> ns | Inr ns' \<Rightarrow> ns')"

section \<open>useTranslator: playback scheduling\<close>

text \<open>
  The audio branch of \<^verbatim>\<open>onmessage\<close>. The cursor is raised to the clock before the
  payload is decoded, so a payload that fails to decode still moves it. The handler runs
  to completion before the next message is delivered: \<^verbatim>\<open>decodeAudioData\<close> awaits
  nothing, so the \<^verbatim>\<open>await\<close> resumes before any other event. Transcription fragments
  only touch the transcript list and are left out.
\<close>

record LiveServerMessage =
  inlineData :: "jsstring option"
  interrupted :: bool

definition enqueue :: "real \<Rightarrow> jsstring \<Rightarrow> translator \<Rightarrow> translator" where
  "enqueue currentTime base64Audio s =
     (let s1 = s\<lparr>nextStartTimeRef := max (nextStartTimeRef s) currentTime\<rparr>
      in case decodeAudioData base64Audio 24000 of
           Inl err \<Rightarrow> s1
         | Inr audioBuffer \<Rightarrow>
             (let source = length (nodes s1);
                  started = \<lparr>node_start = nextStartTimeRef s1,
                             node_duration = duration audioBuffer,
                             node_status = Playing\<rparr>
              in s1\<lparr>nodes := nodes s1 @ [started],
                    nextStartTimeRef := nextStartTimeRef s1 + duration audioBuffer,
                    sourcesRef := (if source \<in> set (sourcesRef s1) then sourcesRef s1
                                   else sourcesRef s1 @ [source])\<rparr>))"

definition interrupt :: "translator \<Rightarrow> translator" where
  "interrupt s =
     s\<lparr>nodes := stop_each (sourcesRef s) (nodes s), sourcesRef := [], nextStartTimeRef := 0\<rparr>"

definition onmessage :: "real \<Rightarrow> LiveServerMessage \<Rightarrow> translator \<Rightarrow> translator" where
  "onmessage currentTime message s =
     (let s1 = (case inlineData message of
                  None \<Rightarrow> s
                | Some base64Audio \<Rightarrow>
                    if base64Audio \<noteq> [] \<and> outputContextRef s \<noteq> None
                    then enqueue currentTime base64Audio s else s)
      in if interrupted message then interrupt s1 else s1)"








section \<open>useTranslator: session life cycle\<close>

text \<open>
  What the browser and the SDK answer during \<^verbatim>\<open>connect\<close>: each constructor or awaited
  call either yields an object or throws an exception, of which only the message is
  used. \<^verbatim>\<open>ai.live.connect\<close> returns a promise that is stored without being awaited.
\<close>

record setup_env =
  API_KEY :: string
  newInputContext :: "string + nat"
  newOutputContext :: "string + nat"
  inputAnalyser :: nat
  outputAnalyser :: nat
  getUserMedia :: "string + nat"
  newGoogleGenAI :: "string + nat"
  liveConnect :: nat

definition connect_try :: "setup_env \<Rightarrow> translator \<Rightarrow> (string \<times> translator) + translator" where
  "connect_try env s =
     (let s1 = s\<lparr>connectionState := CONNECTING, error := None\<rparr>
      in case newInputContext env of
           Inl msg \<Rightarrow> Inl (msg, s1)
         | Inr inputContext \<Rightarrow>
      (let s2 = s1\<lparr>inputContextRef := Some inputContext\<rparr>
       in case newOutputContext env of
            Inl msg \<Rightarrow> Inl (msg, s2)
          | Inr outputContext \<Rightarrow>
      (let s3 = s2\<lparr>outputContextRef := Some outputContext,
                    inputAnalyserRef := Some (inputAnalyser env),
                    outputAnalyserRef := Some (outputAnalyser env)\<rparr>
       in case getUserMedia env of
            Inl msg \<Rightarrow> Inl (msg, s3)
          | Inr stream \<Rightarrow>
      (let s4 = s3\<lparr>streamRef := Some stream\<rparr>
       in case newGoogleGenAI env of
            Inl msg \<Rightarrow> Inl (msg, s4)
          | Inr ai \<Rightarrow> Inr (s4\<lparr>sessionPromiseRef := Some (liveConnect env)\<rparr>)))))"

definition connect :: "setup_env \<Rightarrow> translator \<Rightarrow> translator" where
  "connect env s =
     (if API_KEY env = [] then s\<lparr>error := Some ''API Key is missing.''\<rparr>
      else case connect_try env s of
             Inr s' \<Rightarrow> s'
           | Inl (msg, s') \<Rightarrow>
               s'\<lparr>error := Some (if msg = [] then ''Failed to connect.'' else msg),
                  connectionState := ERROR\<rparr>)"

definition setup_throws :: "setup_env \<Rightarrow> bool" where
  "setup_throws env \<longleftrightarrow>
     isl (newInputContext env) \<or> isl (newOutputContext env) \<or>
     isl (getUserMedia env) \<or> isl (newGoogleGenAI env)"

text \<open>The steps of \<^verbatim>\<open>disconnect\<close>, in the order of the source.\<close>

definition close_session :: "translator \<Rightarrow> js_error + translator" where
  "close_session s =
     (if sessionPromiseRef s \<noteq> None
      then and_then (invoke (sessionPromiseRef s) SessionClose s)
             (\<lambda>s. Inr (s\<lparr>sessionPromiseRef := None\<rparr>))
      else Inr s)"

definition stop_tracks :: "translator \<Rightarrow> js_error + translator" where
  "stop_tracks s =
     (if streamRef s \<noteq> None
      then and_then (invoke (streamRef s) TracksStop s)
             (\<lambda>s. Inr (s\<lparr>streamRef := None\<rparr>))
      else Inr s)"

definition disconnect_nodes :: "translator \<Rightarrow> js_error + translator" where
  "disconnect_nodes s =
     and_then
       (if processorRef s \<noteq> None
        then and_then (invoke (processorRef s) ProcessorDisconnect s)
               (\<lambda>s. Inr (s\<lparr>processorRef := None\<rparr>))
        else Inr s)
       (\<lambda>s. if inputSourceRef s \<noteq> None
            then and_then (invoke (inputSourceRef s) InputSourceDisconnect s)
                   (\<lambda>s. Inr (s\<lparr>inputSourceRef := None\<rparr>))
            else Inr s)"

definition close_contexts :: "translator \<Rightarrow> js_error + translator" where
  "close_contexts s =
     and_then
       (if inputContextRef s \<noteq> None
        then and_then (invoke (inputContextRef s) ContextClose s)
               (\<lambda>s. Inr (s\<lparr>inputContextRef := None\<rparr>))
        else Inr s)
       (\<lambda>s. if outputContextRef s \<noteq> None
            then and_then (invoke (outputContextRef s) ContextClose s)
                   (\<lambda>s. Inr (s\<lparr>outputContextRef := None\<rparr>))
            else Inr s)"

definition disconnect :: "translator \<Rightarrow> js_error + translator" where
  "disconnect s =
     and_then (close_session s) (\<lambda>s.
     and_then (stop_tracks s) (\<lambda>s.
     and_then (disconnect_nodes s) (\<lambda>s.
     and_then (close_contexts s) (\<lambda>s.
     Inr (s\<lparr>nodes := stop_each (sourcesRef s) (nodes s),
            sourcesRef := [],
            nextStartTimeRef := 0,
            connectionState := DISCONNECTED\<rparr>)))))"

text \<open>
  \<^verbatim>\<open>onopen\<close> marks the session Connected and, when the input context and the
  microphone stream are there, builds the capture graph. Every capture callback passes
  its block through \<^verbatim>\<open>downsampleBuffer\<close> and \<^verbatim>\<open>createPcmBlob\<close> at 16000 Hz.
\<close>

definition onopen :: "nat \<Rightarrow> nat \<Rightarrow> translator \<Rightarrow> translator" where
  "onopen mediaStreamSource scriptProcessor s =
     (let s1 = s\<lparr>connectionState := CONNECTED\<rparr>
      in if inputContextRef s1 = None \<or> streamRef s1 = None then s1
         else s1\<lparr>inputSourceRef := Some mediaStreamSource,
                  processorRef := Some scriptProcessor\<rparr>)"

definition onaudioprocess :: "real list \<Rightarrow> number \<Rightarrow> js_error + Blob" where
  "onaudioprocess inputData currentInputSampleRate =
     and_then (downsampleBuffer inputData currentInputSampleRate (Finite 16000))
       (\<lambda>downsampledData. createPcmBlob downsampledData 16000)"

definition onclose :: "translator \<Rightarrow> translator" where
  "onclose s = s\<lparr>connectionState := DISCONNECTED\<rparr>"

definition onerror :: "string \<Rightarrow> translator \<Rightarrow> js_error + translator" where
  "onerror msg s =
     disconnect (s\<lparr>error := Some (''Connection error: '' @ msg), connectionState := ERROR\<rparr>)"

definition released :: "translator \<Rightarrow> bool" where
  "released s \<longleftrightarrow>
     sessionPromiseRef s = None \<and> streamRef s = None \<and> processorRef s = None \<and>
     inputSourceRef s = None \<and> inputContextRef s = None \<and> outputContextRef s = None"

section \<open>Auxiliary notions for the proofs\<close>





text \<open>The state \<^verbatim>\<open>disconnect\<close> leaves behind, written out field by field.\<close>

definition disconnected_form :: "translator \<Rightarrow> translator" where
  "disconnected_form s = s\<lparr>sessionPromiseRef := None, streamRef := None, processorRef := None,
     inputSourceRef := None, inputContextRef := None, outputContextRef := None,
     nodes := stop_each (sourcesRef s) (nodes s), sourcesRef := [], nextStartTimeRef := 0,
     connectionState := DISCONNECTED,
     effects := effects s
       @ (case sessionPromiseRef s of None \<Rightarrow> [] | Some h \<Rightarrow> [SessionClose h])
       @ (case streamRef s of None \<Rightarrow> [] | Some h \<Rightarrow> [TracksStop h])
       @ (case processorRef s of None \<Rightarrow> [] | Some h \<Rightarrow> [ProcessorDisconnect h])
       @ (case inputSourceRef s of None \<Rightarrow> [] | Some h \<Rightarrow> [InputSourceDisconnect h])
       @ (case inputContextRef s of None \<Rightarrow> [] | Some h \<Rightarrow> [ContextClose h])
       @ (case outputContextRef s of None \<Rightarrow> [] | Some h \<Rightarrow> [ContextClose h])\<rparr>"

section \<open>Sample-format conversion: no wrap-around, little-endian framing\<close>

lemma getInt16_le_setInt16_le:
  "getInt16_le (ucast w) (ucast (drop_bit 8 w)) = (w::int16)"
  unfolding getInt16_le_def
  by (rule bit_word_eqI) (auto simp add: bit_simps)

lemma sint_word_of_int_int16:
  "- 32768 \<le> k \<Longrightarrow> k < 32768 \<Longrightarrow> sint (word_of_int k :: int16) = k"
  by (simp add: signed_of_int signed_take_bit_int_eq_self)

lemma pcm_scaled_bounds: "- 32768 \<le> pcm_scaled x \<and> pcm_scaled x \<le> 32767"
  by (auto simp add: pcm_scaled_def Let_def max_def min_def)

lemma js_trunc_scaled_bounds: "- 32768 \<le> js_trunc (pcm_scaled x) \<and> js_trunc (pcm_scaled x) < 32768"
proof -
  have b: "- 32768 \<le> pcm_scaled x" "pcm_scaled x \<le> 32767"
    using pcm_scaled_bounds [of x] by auto
  show ?thesis
  proof (cases "pcm_scaled x < 0")
    case True
    have "\<lceil>- 32768 :: real\<rceil> \<le> \<lceil>pcm_scaled x\<rceil>"
      using b(1) by (rule ceiling_mono)
    moreover have "\<lceil>pcm_scaled x\<rceil> \<le> \<lceil>0 :: real\<rceil>"
      using True by (intro ceiling_mono) simp
    ultimately show ?thesis using True by (simp add: js_trunc_def)
  next
    case False
    have "\<lfloor>pcm_scaled x\<rfloor> \<le> \<lfloor>32767 :: real\<rfloor>"
      using b(2) by (rule floor_mono)
    then show ?thesis using False by (simp add: js_trunc_def)
  qed
qed

lemma sint_pcm_sample: "sint (pcm_sample x) = js_trunc (pcm_scaled x)"
  using js_trunc_scaled_bounds [of x]
  by (simp add: pcm_sample_def ToInt16_def sint_word_of_int_int16)

lemma Int16Array_float32To16BitPCM:
  "Int16Array (float32To16BitPCM xs) = Inr (map pcm_sample xs)"
  by (induction xs) (simp_all add: setInt16_le_def getInt16_le_setInt16_le)

lemma length_float32To16BitPCM: "length (float32To16BitPCM xs) = 2 * length xs"
  by (induction xs) (simp_all add: setInt16_le_def)

lemma int16ToFloat32_map: "int16ToFloat32 ws = map (\<lambda>w. real_of_int (sint w) / 32768) ws"
  by (induction ws) simp_all

lemma roundtrip_nonneg:
  assumes "0 \<le> x" "x \<le> 1"
  shows "0 \<le> x - real_of_int (sint (pcm_sample x)) / 32768"
    and "x - real_of_int (sint (pcm_sample x)) / 32768 < 1 / 16384"
proof -
  have sc: "pcm_scaled x = x * 32767"
    using assms by (simp add: pcm_scaled_def max_def min_def)
  have q: "sint (pcm_sample x) = \<lfloor>x * 32767\<rfloor>"
    using assms by (simp add: sint_pcm_sample sc js_trunc_def)
  have lo: "real_of_int \<lfloor>x * 32767\<rfloor> \<le> x * 32767" by simp
  have hi: "x * 32767 < real_of_int \<lfloor>x * 32767\<rfloor> + 1" by linarith
  show "0 \<le> x - real_of_int (sint (pcm_sample x)) / 32768"
  proof -
    have "x * 32767 \<le> x * 32768" using assms by simp
    with lo have "real_of_int \<lfloor>x * 32767\<rfloor> \<le> x * 32768" by linarith
    then show ?thesis unfolding q by (simp add: field_simps)
  qed
  show "x - real_of_int (sint (pcm_sample x)) / 32768 < 1 / 16384"
    using hi assms unfolding q by (simp add: field_simps)
qed

lemma roundtrip_neg:
  assumes "- 1 \<le> x" "x < 0"
  shows "0 \<le> real_of_int (sint (pcm_sample x)) / 32768 - x"
    and "real_of_int (sint (pcm_sample x)) / 32768 - x < 1 / 32768"
proof -
  have sc: "pcm_scaled x = x * 32768"
    using assms by (simp add: pcm_scaled_def max_def min_def)
  have neg: "x * 32768 < 0" using assms by simp
  have q: "sint (pcm_sample x) = \<lceil>x * 32768\<rceil>"
    using neg by (simp add: sint_pcm_sample sc js_trunc_def)
  have lo: "x * 32768 \<le> real_of_int \<lceil>x * 32768\<rceil>" by simp
  have hi: "real_of_int \<lceil>x * 32768\<rceil> < x * 32768 + 1" by linarith
  show "0 \<le> real_of_int (sint (pcm_sample x)) / 32768 - x"
    using lo unfolding q by (simp add: field_simps)
  show "real_of_int (sint (pcm_sample x)) / 32768 - x < 1 / 32768"
    using hi unfolding q by (simp add: field_simps)
qed

lemma roundtrip_sample:
  assumes "- 1 \<le> x" "x \<le> 1"
  shows "\<bar>real_of_int (sint (pcm_sample x)) / 32768 - x\<bar> < 1 / 16384"
    and "x \<le> 0 \<Longrightarrow> \<bar>real_of_int (sint (pcm_sample x)) / 32768 - x\<bar> < 1 / 32768"
proof -
  show "\<bar>real_of_int (sint (pcm_sample x)) / 32768 - x\<bar> < 1 / 16384"
  proof (cases "x < 0")
    case True
    from roundtrip_neg [OF assms(1) True] show ?thesis by linarith
  next
    case False
    then have "0 \<le> x" by simp
    from roundtrip_nonneg [OF this assms(2)] show ?thesis by linarith
  qed
  show "\<bar>real_of_int (sint (pcm_sample x)) / 32768 - x\<bar> < 1 / 32768" if "x \<le> 0"
  proof (cases "x < 0")
    case True
    from roundtrip_neg [OF assms(1) True] show ?thesis by linarith
  next
    case False
    with that have "x = 0" by simp
    then show ?thesis by (simp add: sint_pcm_sample pcm_scaled_def js_trunc_def)
  qed
qed

section \<open>Rounding to binary64\<close>

lemma pow2_powr: "pow2 e = 2 powr real_of_int e"
proof (cases "0 \<le> e")
  case True
  then have "real_of_int e = real (nat e)" by simp
  then have "2 powr real_of_int e = (2::real) ^ nat e"
    by (simp only: powr_realpow [of 2, simplified])
  with True show ?thesis by (simp add: pow2_def)
next
  case False
  then have "real_of_int e = - real (nat (- e))" by simp
  then have "2 powr real_of_int e = inverse ((2::real) ^ nat (- e))"
    by (simp only: powr_minus powr_realpow [of 2, simplified])
  with False show ?thesis by (simp add: pow2_def inverse_eq_divide)
qed

lemma pow2_pos: "0 < pow2 e"
  by (simp add: pow2_powr)

lemma pow2_add: "pow2 (d + e) = pow2 d * pow2 e"
  by (simp add: pow2_powr powr_add)

lemma pow2_mono: "d \<le> e \<Longrightarrow> pow2 d \<le> pow2 e"
  by (simp add: pow2_powr)

lemma pow2_nat: "0 \<le> e \<Longrightarrow> pow2 e = 2 ^ nat e"
  by (simp add: pow2_def)

lemma pow2_0: "pow2 0 = 1"
  by (simp add: pow2_def)

lemma round_half_even_close: "\<bar>real_of_int (round_half_even z) - z\<bar> \<le> 1 / 2"
proof -
  have "real_of_int \<lfloor>z\<rfloor> \<le> z" "z < real_of_int \<lfloor>z\<rfloor> + 1" by linarith+
  then show ?thesis
    by (auto simp add: round_half_even_def Let_def)
qed

lemma round_half_even_of_int: "round_half_even (real_of_int n) = n"
  by (simp add: round_half_even_def)

lemma round_half_even_unique:
  assumes "\<bar>z - real_of_int m\<bar> < 1 / 2"
  shows "round_half_even z = m"
proof -
  have "\<bar>real_of_int (round_half_even z) - z\<bar> \<le> 1 / 2"
    by (rule round_half_even_close)
  with assms have "\<bar>real_of_int (round_half_even z) - real_of_int m\<bar> < 1" by linarith
  then have "\<bar>real_of_int (round_half_even z - m)\<bar> < 1" by simp
  then have "\<bar>round_half_even z - m\<bar> < 1" by linarith
  then show ?thesis by simp
qed

lemma round_half_even_bounds:
  assumes "real_of_int lo \<le> z" and "z \<le> real_of_int hi"
  shows "lo \<le> round_half_even z" and "round_half_even z \<le> hi"
proof -
  have f: "real_of_int \<lfloor>z\<rfloor> \<le> z" "z < real_of_int \<lfloor>z\<rfloor> + 1" by linarith+
  have lo: "lo \<le> \<lfloor>z\<rfloor>" using assms(1) by (simp add: le_floor_iff)
  have hi: "\<lfloor>z\<rfloor> \<le> hi" using assms(2) by (simp add: floor_le_iff)
  show "lo \<le> round_half_even z"
    using lo by (auto simp add: round_half_even_def Let_def)
  show "round_half_even z \<le> hi"
  proof (cases "z = real_of_int \<lfloor>z\<rfloor>")
    case True
    then have "z - real_of_int \<lfloor>z\<rfloor> < 1 / 2" by simp
    then show ?thesis using hi by (simp add: round_half_even_def Let_def)
  next
    case False
    with f have "real_of_int \<lfloor>z\<rfloor> < z" by linarith
    with assms(2) have "real_of_int \<lfloor>z\<rfloor> < real_of_int hi" by linarith
    then have "\<lfloor>z\<rfloor> + 1 \<le> hi" by linarith
    then show ?thesis using hi by (auto simp add: round_half_even_def Let_def)
  qed
qed

text \<open>
  The shape of a rounded positive value: with \<open>k\<close> the binade of \<open>x\<close>, the result is
  an integer multiple \<open>m\<close> of the quantum, at most half a quantum away from \<open>x\<close>.
\<close>

lemma binade:
  assumes "0 < x"
  shows "pow2 \<lfloor>log 2 x\<rfloor> \<le> x" and "x < pow2 (\<lfloor>log 2 x\<rfloor> + 1)"
proof -
  have "2 powr real_of_int \<lfloor>log 2 x\<rfloor> \<le> x \<and> x < 2 powr real_of_int (\<lfloor>log 2 x\<rfloor> + 1)"
    using floor_log_eq_powr_iff [of x 2 "\<lfloor>log 2 x\<rfloor>"] assms by simp
  then show "pow2 \<lfloor>log 2 x\<rfloor> \<le> x" and "x < pow2 (\<lfloor>log 2 x\<rfloor> + 1)"
    by (simp_all add: pow2_powr)
qed

lemma binade_unique:
  assumes "0 < x" and "pow2 k \<le> x" and "x < pow2 (k + 1)"
  shows "\<lfloor>log 2 x\<rfloor> = k"
  using floor_log_eq_powr_iff [of x 2 k] assms by (simp add: pow2_powr)

lemma binary64_pos:
  assumes "0 < x"
  shows "binary64 x =
    (let e = max \<lfloor>log 2 x\<rfloor> (- 1022) - 52;
         y = of_int (round_half_even (x / pow2 e)) * pow2 e
     in if 2 ^ 1024 \<le> y then PosInf else Finite y)"
  using assms by (simp add: binary64_def Let_def)

lemma binary64_neg:
  assumes "x < 0"
  shows "binary64 x =
    (let e = max \<lfloor>log 2 (- x)\<rfloor> (- 1022) - 52;
         y = of_int (round_half_even (- x / pow2 e)) * pow2 e
     in if 2 ^ 1024 \<le> y then NegInf else Finite (- y))"
  using assms by (simp add: binary64_def Let_def)

lemma binary64_zero: "binary64 0 = Finite 0"
  by (simp add: binary64_def)

lemma rounded_shape:
  assumes x: "0 < x"
  defines "k \<equiv> \<lfloor>log 2 x\<rfloor>"
  defines "e \<equiv> max k (- 1022) - 52"
  defines "m \<equiv> round_half_even (x / pow2 e)"
  shows "0 \<le> m"
    and "\<bar>real_of_int m * pow2 e - x\<bar> \<le> pow2 e / 2"
    and "pow2 e / 2 \<le> max x (pow2 (- 1022)) / 2 ^ 53"
    and "- 1022 \<le> k \<Longrightarrow> pow2 k \<le> real_of_int m * pow2 e"
    and "- 1022 \<le> k \<Longrightarrow> real_of_int m * pow2 e \<le> pow2 (k + 1)"
proof -
  have pe: "0 < pow2 e" by (rule pow2_pos)
  have "real_of_int 0 \<le> x / pow2 e" using x pe by simp
  then show "0 \<le> m"
    unfolding m_def by (rule round_half_even_bounds(1) [where hi = "\<lceil>x / pow2 e\<rceil>"]) simp
  have "\<bar>real_of_int m - x / pow2 e\<bar> \<le> 1 / 2"
    unfolding m_def by (rule round_half_even_close)
  then have "\<bar>real_of_int m - x / pow2 e\<bar> * pow2 e \<le> 1 / 2 * pow2 e"
    using pe by (simp only: mult_le_cancel_right_pos)
  moreover have "\<bar>real_of_int m - x / pow2 e\<bar> * pow2 e = \<bar>real_of_int m * pow2 e - x\<bar>"
  proof -
    have "\<bar>real_of_int m - x / pow2 e\<bar> * pow2 e = \<bar>(real_of_int m - x / pow2 e) * pow2 e\<bar>"
      using pe by (simp add: abs_mult)
    also have "(real_of_int m - x / pow2 e) * pow2 e = real_of_int m * pow2 e - x"
      using pe by (simp add: field_simps)
    finally show ?thesis .
  qed
  ultimately show "\<bar>real_of_int m * pow2 e - x\<bar> \<le> pow2 e / 2" by simp
  have split: "pow2 e * 2 ^ 52 = pow2 (max k (- 1022))"
  proof -
    have "pow2 (e + 52) = pow2 e * pow2 52" by (rule pow2_add)
    moreover have "pow2 52 = 2 ^ 52" by (simp add: pow2_def)
    moreover have "e + 52 = max k (- 1022)" by (simp add: e_def)
    ultimately show ?thesis by simp
  qed
  have kx: "pow2 k \<le> x" unfolding k_def using x by (rule binade(1))
  have "pow2 (max k (- 1022)) \<le> max x (pow2 (- 1022))"
  proof (cases "- 1022 \<le> k")
    case True
    then have "max k (- 1022) = k" by simp
    with kx show ?thesis by simp
  next
    case False
    then have "max k (- 1022) = - 1022" by simp
    then show ?thesis by simp
  qed
  with split have "pow2 e * 2 ^ 52 \<le> max x (pow2 (- 1022))" by simp
  then show "pow2 e / 2 \<le> max x (pow2 (- 1022)) / 2 ^ 53"
    by (simp add: field_simps)
  {
    assume k: "- 1022 \<le> k"
    then have ek: "e = k - 52" by (simp add: e_def)
    have lo: "pow2 k = pow2 e * 2 ^ 52"
      using split k by simp
    have "pow2 (k + 1) = pow2 k * pow2 1" by (rule pow2_add)
    then have hi: "pow2 (k + 1) = pow2 e * 2 ^ 53"
      using lo by (simp add: pow2_def)
    have kx': "x < pow2 (k + 1)" unfolding k_def using x by (rule binade(2))
    have zlo: "real_of_int (2 ^ 52) \<le> x / pow2 e"
      using kx lo pe by (simp add: field_simps)
    have zhi: "x / pow2 e \<le> real_of_int (2 ^ 53)"
      using kx' hi pe by (simp add: field_simps)
    from round_half_even_bounds [OF zlo zhi]
    have mb: "2 ^ 52 \<le> m" "m \<le> 2 ^ 53" unfolding m_def by simp_all
    from mb(1) have "real_of_int (2 ^ 52) \<le> real_of_int m" by (simp only: of_int_le_iff)
    then have "(2 ^ 52 :: real) \<le> real_of_int m" by simp
    then have "2 ^ 52 * pow2 e \<le> real_of_int m * pow2 e"
      using pe by (simp only: mult_le_cancel_right_pos)
    then show "pow2 k \<le> real_of_int m * pow2 e"
      using lo by (simp add: mult.commute)
    from mb(2) have "real_of_int m \<le> real_of_int (2 ^ 53)" by (simp only: of_int_le_iff)
    then have "real_of_int m \<le> (2 ^ 53 :: real)" by simp
    then have "real_of_int m * pow2 e \<le> 2 ^ 53 * pow2 e"
      using pe by (simp only: mult_le_cancel_right_pos)
    then show "real_of_int m * pow2 e \<le> pow2 (k + 1)"
      using hi by (simp add: mult.commute)
  }
qed

lemma binary64_nonneg:
  assumes "0 \<le> x"
  shows "binary64 x = PosInf \<or> (\<exists>y. binary64 x = Finite y \<and> 0 \<le> y)"
proof (cases "x = 0")
  case True
  then show ?thesis by (simp add: binary64_zero)
next
  case False
  with assms have x: "0 < x" by simp
  have "0 \<le> real_of_int (round_half_even (x / pow2 (max \<lfloor>log 2 x\<rfloor> (- 1022) - 52)))
      * pow2 (max \<lfloor>log 2 x\<rfloor> (- 1022) - 52)"
    using rounded_shape(1) [OF x] by (intro mult_nonneg_nonneg) (simp_all add: pow2_pos less_imp_le)
  then show ?thesis
    unfolding binary64_pos [OF x] Let_def by simp
qed

lemma binary64_nonpos:
  assumes "x \<le> 0"
  shows "binary64 x = NegInf \<or> (\<exists>y. binary64 x = Finite y \<and> y \<le> 0)"
proof (cases "x = 0")
  case True
  then show ?thesis by (simp add: binary64_zero)
next
  case False
  with assms have x: "x < 0" by simp
  then have nx: "0 < - x" by simp
  have "0 \<le> real_of_int (round_half_even (- x / pow2 (max \<lfloor>log 2 (- x)\<rfloor> (- 1022) - 52)))
      * pow2 (max \<lfloor>log 2 (- x)\<rfloor> (- 1022) - 52)"
    using rounded_shape(1) [OF nx] by (intro mult_nonneg_nonneg) (simp_all add: pow2_pos less_imp_le)
  then show ?thesis
    unfolding binary64_neg [OF x] Let_def by simp
qed

lemma binary64_close:
  assumes x: "0 < x" and top: "x \<le> 2 ^ 1023"
  shows "\<exists>y. binary64 x = Finite y \<and> 0 \<le> y \<and> \<bar>y - x\<bar> \<le> max x (pow2 (- 1022)) / 2 ^ 53"
proof -
  let ?e = "max \<lfloor>log 2 x\<rfloor> (- 1022) - 52"
  let ?y = "real_of_int (round_half_even (x / pow2 ?e)) * pow2 ?e"
  note s = rounded_shape [OF x]
  have err: "\<bar>?y - x\<bar> \<le> max x (pow2 (- 1022)) / 2 ^ 53"
    using s(2) s(3) by linarith
  have "pow2 (- 1022) \<le> 1" by (simp add: pow2_def)
  then have "max x (pow2 (- 1022)) \<le> 2 ^ 1023"
    using top by simp
  moreover have "max x (pow2 (- 1022)) / 2 ^ 53 \<le> max x (pow2 (- 1022)) / 2"
    using x by (intro divide_left_mono) simp_all
  ultimately have "max x (pow2 (- 1022)) / 2 ^ 53 \<le> 2 ^ 1023 / (2 :: real)"
    by linarith
  with err top have "?y \<le> 2 ^ 1023 + 2 ^ 1023 / (2 :: real)" by linarith
  moreover have "(2 :: real) ^ 1023 + 2 ^ 1023 / 2 < 2 ^ 1024" by simp
  ultimately have "?y < 2 ^ 1024" by linarith
  then have "binary64 x = Finite ?y"
    unfolding binary64_pos [OF x] Let_def by simp
  moreover have "0 \<le> ?y"
    using s(1) by (intro mult_nonneg_nonneg) (simp_all add: pow2_pos less_imp_le)
  ultimately show ?thesis using err by blast
qed

lemma binary64_ge_one:
  assumes "1 \<le> x"
  shows "binary64 x = PosInf \<or> (\<exists>y. binary64 x = Finite y \<and> 1 \<le> y \<and> \<bar>y - x\<bar> \<le> x / 2 ^ 53)"
proof -
  from assms have x: "0 < x" by simp
  let ?k = "\<lfloor>log 2 x\<rfloor>"
  let ?e = "max ?k (- 1022) - 52"
  let ?y = "real_of_int (round_half_even (x / pow2 ?e)) * pow2 ?e"
  note s = rounded_shape [OF x]
  have k0: "0 \<le> ?k"
  proof (rule ccontr)
    assume "\<not> 0 \<le> ?k"
    then have "?k + 1 \<le> 0" by linarith
    then have "pow2 (?k + 1) \<le> pow2 0" by (rule pow2_mono)
    with binade(2) [OF x] have "x < 1" by (simp add: pow2_0)
    with assms show False by simp
  qed
  then have k: "- 1022 \<le> ?k" by simp
  have "pow2 0 \<le> pow2 ?k" using k0 by (rule pow2_mono)
  with s(4) [OF k] have y1: "1 \<le> ?y" by (simp add: pow2_0)
  have "pow2 (- 1022) \<le> 1" by (simp add: pow2_def)
  with assms have "max x (pow2 (- 1022)) = x" by simp
  with s(2) s(3) have err: "\<bar>?y - x\<bar> \<le> x / 2 ^ 53" by simp
  show ?thesis
  proof (cases "2 ^ 1024 \<le> ?y")
    case True
    then show ?thesis unfolding binary64_pos [OF x] Let_def by simp
  next
    case False
    then have "binary64 x = Finite ?y" unfolding binary64_pos [OF x] Let_def by simp
    with y1 err show ?thesis by blast
  qed
qed

text \<open>Evaluating \<open>binary64\<close> at a given value: the binade and the significand suffice.\<close>

lemma binary64_eval:
  assumes x: "0 < x" and lo: "pow2 k \<le> x" and hi: "x < pow2 (k + 1)"
    and k: "- 1022 \<le> k" "k \<le> 1022"
    and m: "\<bar>x / pow2 (k - 52) - real_of_int m\<bar> < 1 / 2"
  shows "binary64 x = Finite (real_of_int m * pow2 (k - 52))"
proof -
  have kk: "\<lfloor>log 2 x\<rfloor> = k" using x lo hi by (rule binade_unique)
  then have e: "max \<lfloor>log 2 x\<rfloor> (- 1022) - 52 = k - 52" using k by simp
  have rm: "round_half_even (x / pow2 (k - 52)) = m"
    using m by (rule round_half_even_unique)
  from rounded_shape(5) [OF x] kk k e rm
  have "real_of_int m * pow2 (k - 52) \<le> pow2 (k + 1)" by simp
  also have "pow2 (k + 1) \<le> pow2 1023" using k by (intro pow2_mono) simp
  also have "pow2 1023 < 2 ^ 1024" by (simp add: pow2_def)
  finally have "\<not> 2 ^ 1024 \<le> real_of_int m * pow2 (k - 52)" by simp
  then show ?thesis
    unfolding binary64_pos [OF x] Let_def e rm by simp
qed

section \<open>Decimation: what the loop computes\<close>

lemma ToIndex_nat: "n < 2 ^ 53 \<Longrightarrow> ToIndex (Finite (real n)) = Inr n"
proof -
  assume "n < 2 ^ 53"
  then have "int n < 2 ^ 53" by (metis of_nat_less_iff of_nat_numeral of_nat_power)
  moreover have "js_trunc (real n) = int n" by (simp add: js_trunc_def)
  ultimately show ?thesis by simp
qed

lemma Math_round_nonneg:
  assumes "0 \<le> q"
  shows "\<exists>n. Math_round (Finite q) = Finite (real n) \<and> int n = \<lfloor>q + 1 / 2\<rfloor>"
proof -
  from assms have "0 \<le> \<lfloor>q + 1 / 2\<rfloor>" by simp
  then have "real (nat \<lfloor>q + 1 / 2\<rfloor>) = real_of_int \<lfloor>q + 1 / 2\<rfloor>"
    and "int (nat \<lfloor>q + 1 / 2\<rfloor>) = \<lfloor>q + 1 / 2\<rfloor>"
    by (simp_all add: of_nat_nat del: zero_le_floor)
  then have "Math_round (Finite q) = Finite (real (nat \<lfloor>q + 1 / 2\<rfloor>))
      \<and> int (nat \<lfloor>q + 1 / 2\<rfloor>) = \<lfloor>q + 1 / 2\<rfloor>"
    by (simp only: Math_round.simps)
  then show ?thesis by blast
qed

text \<open>The double quotient of two positive rates, the larger on top.\<close>

lemma ratio_cases:
  assumes "0 < b" and "b < a"
  shows "num_div (Finite a) (Finite b) = PosInf
       \<or> (\<exists>r. num_div (Finite a) (Finite b) = Finite r \<and> 1 \<le> r \<and> \<bar>r - a / b\<bar> \<le> a / b / 2 ^ 53)"
proof -
  from assms have "1 \<le> a / b" by simp
  from binary64_ge_one [OF this] show ?thesis using assms by simp
qed

lemma quotient_by_ratio:
  assumes r: "1 \<le> r" and len: "len < 2 ^ 52"
  shows "\<exists>q. num_div (Finite (real len)) (Finite r) = Finite q \<and> 0 \<le> q
           \<and> q \<le> real len / r + max (real len / r) (pow2 (- 1022)) / 2 ^ 53
           \<and> q < real len + 1 / 2"
proof (cases "len = 0")
  case True
  then show ?thesis using r by (simp add: binary64_zero)
next
  case False
  let ?x = "real len / r"
  from False r have x: "0 < ?x" by simp
  have "real len / r \<le> real len / 1"
    using r by (intro divide_left_mono) simp_all
  then have xl: "?x \<le> real len" by simp
  have l52: "real len < 2 ^ 52" using len by (metis of_nat_less_iff of_nat_numeral of_nat_power)
  then have "?x \<le> 2 ^ 1023" using xl by (simp add: order_trans [OF _ power_increasing [of 52 1023 2]])
  from binary64_close [OF x this] obtain q where q: "binary64 ?x = Finite q" "0 \<le> q"
    "\<bar>q - ?x\<bar> \<le> max ?x (pow2 (- 1022)) / 2 ^ 53" by blast
  have "pow2 (- 1022) \<le> 1" by (simp add: pow2_def)
  moreover have "1 \<le> real len" using False by simp
  ultimately have "max ?x (pow2 (- 1022)) \<le> real len" using xl by simp
  then have "max ?x (pow2 (- 1022)) / 2 ^ 53 \<le> real len / 2 ^ 53"
    by (simp add: divide_right_mono)
  also have "real len / 2 ^ 53 < 2 ^ 52 / 2 ^ 53" using l52 by (simp add: divide_strict_right_mono)
  finally have "max ?x (pow2 (- 1022)) / 2 ^ 53 < 1 / 2" by simp
  with q(3) xl have "q < real len + 1 / 2" by linarith
  moreover from q(3) have "q \<le> ?x + max ?x (pow2 (- 1022)) / 2 ^ 53" by linarith
  moreover have "num_div (Finite (real len)) (Finite r) = Finite q"
    using r q(1) by simp
  ultimately show ?thesis using q(2) by blast
qed

lemma resampledLength_of_rates:
  assumes "0 < b" and "b < a" and len: "len < 2 ^ 52"
  shows "\<exists>n. resampledLength len (num_div (Finite a) (Finite b)) = Finite (real n)
           \<and> n \<le> len \<and> ToIndex (Finite (real n)) = Inr n"
proof -
  from ratio_cases [OF assms(1,2)] show ?thesis
  proof (elim disjE exE conjE)
    assume "num_div (Finite a) (Finite b) = PosInf"
    then have "resampledLength len (num_div (Finite a) (Finite b)) = Finite (real 0)"
      by (simp add: resampledLength_def)
    moreover have "ToIndex (Finite (real 0)) = Inr 0" by (rule ToIndex_nat) simp
    ultimately show ?thesis by blast
  next
    fix r assume ratio: "num_div (Finite a) (Finite b) = Finite r" and r: "1 \<le> r"
    from quotient_by_ratio [OF r len] obtain q
      where q: "num_div (Finite (real len)) (Finite r) = Finite q" "0 \<le> q" "q < real len + 1 / 2"
      by blast
    from Math_round_nonneg [OF q(2)] obtain n
      where n: "Math_round (Finite q) = Finite (real n)" "int n = \<lfloor>q + 1 / 2\<rfloor>" by blast
    from q(3) have "q + 1 / 2 < real_of_int (int len + 1)" by simp
    then have "\<lfloor>q + 1 / 2\<rfloor> < int len + 1" by (simp only: floor_less_iff)
    with n(2) have le: "n \<le> len" by linarith
    with len have "n < 2 ^ 53" by (simp add: order_le_less_trans [OF _ less_trans [OF _ power_strict_increasing [of 52 53 2]]])
    then have "ToIndex (Finite (real n)) = Inr n" by (rule ToIndex_nat)
    moreover have "resampledLength len (num_div (Finite a) (Finite b)) = Finite (real n)"
      by (simp only: resampledLength_def ratio q(1) n(1))
    ultimately show ?thesis using le by blast
  qed
qed

lemma downsampleBuffer_of_rates:
  assumes "0 < b" and "b < a" and "length buffer < 2 ^ 52"
  shows "\<exists>n. resampledLength (length buffer) (num_div (Finite a) (Finite b)) = Finite (real n)
      \<and> n \<le> length buffer
      \<and> downsampleBuffer buffer (Finite a) (Finite b) =
          Inr (map (\<lambda>i. copied_sample buffer (sourceIndex (num_div (Finite a) (Finite b)) i))
                [0 ..< n])"
proof -
  from resampledLength_of_rates [OF assms] obtain n
    where n: "resampledLength (length buffer) (num_div (Finite a) (Finite b)) = Finite (real n)"
      "n \<le> length buffer" "ToIndex (Finite (real n)) = Inr n" by blast
  have "downsampleBuffer buffer (Finite a) (Finite b) =
          Inr (map (\<lambda>i. copied_sample buffer (sourceIndex (num_div (Finite a) (Finite b)) i))
                [0 ..< n])"
    using assms(1,2) by (simp add: downsampleBuffer_def Let_def n(1) n(3) del: ToIndex.simps num_div.simps)
  with n(1,2) show ?thesis by blast
qed

lemma js_trunc_of_int: "js_trunc (real_of_int z) = z"
  by (simp add: js_trunc_def)

lemma running_loop_ratio:
  assumes rates: "0 < b" "b < a" and len: "len < 2 ^ 52"
    and n: "resampledLength len (num_div (Finite a) (Finite b)) = Finite (real n)" "1 \<le> n"
  shows "\<exists>r. num_div (Finite a) (Finite b) = Finite r \<and> 1 \<le> r
           \<and> \<bar>r - a / b\<bar> \<le> a / b / 2 ^ 53
           \<and> real n \<le> real len / r * (1 + 1 / 2 ^ 53) + 1 / 2
           \<and> r \<le> 4 * real len"
proof -
  from ratio_cases [OF rates] show ?thesis
  proof (elim disjE exE conjE)
    assume "num_div (Finite a) (Finite b) = PosInf"
    with n(1) have "real n = 0" by (simp add: resampledLength_def)
    with n(2) show ?thesis by simp
  next
    fix r assume ratio: "num_div (Finite a) (Finite b) = Finite r" and r: "1 \<le> r"
      and close: "\<bar>r - a / b\<bar> \<le> a / b / 2 ^ 53"
    let ?x = "real len / r"
    let ?tiny = "pow2 (- 1022)"
    from quotient_by_ratio [OF r len] obtain q
      where q: "num_div (Finite (real len)) (Finite r) = Finite q" "0 \<le> q"
        "q \<le> ?x + max ?x ?tiny / 2 ^ 53" by blast
    from n(1) have "Finite (real_of_int \<lfloor>q + 1 / 2\<rfloor>) = Finite (real n)"
      by (simp only: resampledLength_def ratio q(1) Math_round.simps)
    then have nq: "real n = real_of_int \<lfloor>q + 1 / 2\<rfloor>" by simp
    have "real_of_int \<lfloor>q + 1 / 2\<rfloor> \<le> q + 1 / 2" by (rule of_int_floor_le)
    with nq have nle: "real n \<le> q + 1 / 2" by simp
    from n(2) have "1 \<le> real n" by simp
    with nle have qhalf: "1 / 2 \<le> q" by linarith
    have tiny: "?tiny \<le> 1 / 4" by (simp add: pow2_def)
    have quarter: "1 / 4 \<le> ?x"
    proof (rule ccontr)
      assume "\<not> 1 / 4 \<le> ?x"
      with tiny have m: "max ?x ?tiny \<le> 1 / 4" and x: "?x < 1 / 4" by simp_all
      have "0 \<le> max ?x ?tiny"
        using pow2_pos [of "- 1022"] by (simp add: le_max_iff_disj)
      then have "max ?x ?tiny / 2 ^ 53 \<le> max ?x ?tiny / 1"
        by (intro divide_left_mono) simp_all
      with m have "max ?x ?tiny / 2 ^ 53 \<le> 1 / 4" by simp
      with q(3) x qhalf show False by linarith
    qed
    with tiny have "?tiny \<le> ?x" by linarith
    then have "max ?x ?tiny = ?x" by (rule max_absorb1)
    with q(3) have "q \<le> ?x * (1 + 1 / 2 ^ 53)" by (simp add: algebra_simps)
    with nle have bound: "real n \<le> ?x * (1 + 1 / 2 ^ 53) + 1 / 2" by linarith
    from r have rpos: "0 < r" by simp
    from quarter rpos have "r \<le> 4 * real len"
      by (simp add: pos_le_divide_eq)
    with ratio r close bound show ?thesis by blast
  qed
qed

lemma product_by_ratio:
  assumes r: "0 < r" "r \<le> 2 ^ 54" and i: "i < 2 ^ 52"
  shows "\<exists>p. num_mul (Finite (real i)) (Finite r) = Finite p \<and> 0 \<le> p
           \<and> p \<le> real i * r * (1 + 1 / 2 ^ 53) + pow2 (- 1022) / 2 ^ 53"
proof (cases "i = 0")
  case True
  then show ?thesis by (simp add: binary64_zero pow2_pos less_imp_le)
next
  case False
  let ?x = "real i * r"
  from False r have x: "0 < ?x" by simp
  have i52: "real i \<le> 2 ^ 52" using i by (metis less_imp_le of_nat_le_iff of_nat_numeral of_nat_power)
  have "?x \<le> 2 ^ 52 * 2 ^ 54"
    using i52 r by (intro mult_mono) simp_all
  also have "(2 ^ 52 * 2 ^ 54 :: real) \<le> 2 ^ 1023" by simp
  finally have "?x \<le> 2 ^ 1023" .
  from binary64_close [OF x this] obtain p where p: "binary64 ?x = Finite p" "0 \<le> p"
    "\<bar>p - ?x\<bar> \<le> max ?x (pow2 (- 1022)) / 2 ^ 53" by blast
  have "max ?x (pow2 (- 1022)) \<le> ?x + pow2 (- 1022)"
    using x pow2_pos [of "- 1022"] by simp
  then have "max ?x (pow2 (- 1022)) / 2 ^ 53 \<le> (?x + pow2 (- 1022)) / 2 ^ 53"
    by (simp add: divide_right_mono)
  with p(3) have "p \<le> ?x + (?x + pow2 (- 1022)) / 2 ^ 53" by linarith
  then have "p \<le> ?x * (1 + 1 / 2 ^ 53) + pow2 (- 1022) / 2 ^ 53"
    by (simp add: algebra_simps add_divide_distrib)
  with p(1,2) show ?thesis by auto
qed

lemma sourceIndex_of_rates:
  assumes rates: "0 < b" "b < a" and len: "len < 2 ^ 52"
    and n: "resampledLength len (num_div (Finite a) (Finite b)) = Finite (real n)"
    and i: "i < n"
  shows "\<exists>idx. sourceIndex (num_div (Finite a) (Finite b)) i = Finite (real idx)"
proof -
  from i have n1: "1 \<le> n" by simp
  from running_loop_ratio [OF rates len n n1] obtain r
    where r: "num_div (Finite a) (Finite b) = Finite r" "1 \<le> r" "r \<le> 4 * real len" by blast
  have l52: "real len \<le> 2 ^ 52" using len by (metis less_imp_le of_nat_le_iff of_nat_numeral of_nat_power)
  with r(3) have r54: "r \<le> 2 ^ 54" by simp
  have "n \<le> len"
  proof -
    from resampledLength_of_rates [OF rates len] obtain n'
      where "resampledLength len (num_div (Finite a) (Finite b)) = Finite (real n')" "n' \<le> len"
      by blast
    with n show ?thesis by simp
  qed
  with i len have i52: "i < 2 ^ 52" by simp
  from r(2) have rpos: "0 < r" by simp
  from product_by_ratio [OF rpos r54 i52] obtain p
    where p: "num_mul (Finite (real i)) (Finite r) = Finite p" "0 \<le> p" by blast
  from Math_round_nonneg [OF p(2)] obtain idx where "Math_round (Finite p) = Finite (real idx)"
    by blast
  then have "sourceIndex (num_div (Finite a) (Finite b)) i = Finite (real idx)"
    by (simp only: sourceIndex_def r(1) p(1) Let_def)
  then show ?thesis by blast
qed

lemma copied_sample_nat:
  "copied_sample buffer (Finite (real idx)) = (if idx < length buffer then buffer ! idx else 0)"
  by (simp add: copied_sample_def)

text \<open>
  Inside the loop the index is never negative, whatever the ratio: a new length of at
  least 1 needs a positive finite ratio.
\<close>

lemma sourceIndex_not_negative:
  assumes n: "ToIndex (resampledLength len ratio) = Inr n" and i: "i < n"
  shows "sourceIndex ratio i = PosInf \<or> (\<exists>v. sourceIndex ratio i = Finite v \<and> 0 \<le> v)"
proof -
  from i have n1: "1 \<le> n" by simp
  obtain q where q: "num_div (Finite (real len)) ratio = Finite q" "0 < q"
  proof (cases "num_div (Finite (real len)) ratio")
    case (Finite q)
    have t: "js_trunc (real_of_int \<lfloor>q + 1 / 2\<rfloor>) = \<lfloor>q + 1 / 2\<rfloor>"
      by (rule js_trunc_of_int)
    from n Finite have "\<not> \<lfloor>q + 1 / 2\<rfloor> < 0" "nat \<lfloor>q + 1 / 2\<rfloor> = n"
      by (simp_all add: resampledLength_def t split: if_splits)
    then have "\<lfloor>q + 1 / 2\<rfloor> = int n" by linarith
    with n1 have "1 \<le> \<lfloor>q + 1 / 2\<rfloor>" by simp
    then have "0 < q" by (simp add: le_floor_iff)
    with Finite that show ?thesis by blast
  next
    case PosInf
    with n show ?thesis by (simp add: resampledLength_def)
  next
    case NegInf
    with n show ?thesis by (simp add: resampledLength_def)
  next
    case NaN
    with n n1 show ?thesis by (simp add: resampledLength_def)
  qed
  obtain r where r: "ratio = Finite r" "0 < r"
  proof (cases ratio)
    case (Finite r)
    have "r \<noteq> 0" using q Finite by (auto split: if_splits)
    have "0 < r"
    proof (rule ccontr)
      assume "\<not> 0 < r"
      with \<open>r \<noteq> 0\<close> have "r < 0" by simp
      then have "real len / r \<le> 0" by (simp add: divide_nonneg_neg)
      from binary64_nonpos [OF this] q Finite \<open>r \<noteq> 0\<close> show False by auto
    qed
    with Finite that show ?thesis by blast
  next
    case PosInf
    with q show ?thesis by simp
  next
    case NegInf
    with q show ?thesis by simp
  next
    case NaN
    with q show ?thesis by simp
  qed
  have "0 \<le> real i * r" using r(2) by simp
  from binary64_nonneg [OF this]
  show ?thesis by (auto simp add: sourceIndex_def r(1) Let_def)
qed


text \<open>
  The double quotient of the length by the double ratio lies within \<open>L / 2^52\<close> of the
  exact quotient, so the new length differs from the exactly rounded one by at most 1.
\<close>

lemma floors_of_close_reals:
  fixes q x :: real
  assumes "\<bar>q - x\<bar> < 1"
  shows "\<bar>\<lfloor>q + 1 / 2\<rfloor> - \<lfloor>x + 1 / 2\<rfloor>\<bar> \<le> 1"
proof -
  have "real_of_int \<lfloor>q + 1 / 2\<rfloor> \<le> q + 1 / 2" "q + 1 / 2 < real_of_int \<lfloor>q + 1 / 2\<rfloor> + 1"
    "real_of_int \<lfloor>x + 1 / 2\<rfloor> \<le> x + 1 / 2" "x + 1 / 2 < real_of_int \<lfloor>x + 1 / 2\<rfloor> + 1"
    by linarith+
  with assms have "real_of_int \<lfloor>q + 1 / 2\<rfloor> < real_of_int \<lfloor>x + 1 / 2\<rfloor> + 2"
    and "real_of_int \<lfloor>x + 1 / 2\<rfloor> < real_of_int \<lfloor>q + 1 / 2\<rfloor> + 2"
    by linarith+
  then have "\<lfloor>q + 1 / 2\<rfloor> < \<lfloor>x + 1 / 2\<rfloor> + 2" and "\<lfloor>x + 1 / 2\<rfloor> < \<lfloor>q + 1 / 2\<rfloor> + 2"
    by linarith+
  then show ?thesis by linarith
qed

lemma abs_diff_via:
  fixes p x y d e :: real
  assumes "\<bar>p - x\<bar> \<le> d" and "\<bar>x - y\<bar> \<le> e"
  shows "\<bar>p - y\<bar> \<le> d + e"
  using assms by linarith

lemma floor_half_zero:
  fixes z :: real
  assumes "z < 1 / 2" and "0 \<le> z"
  shows "\<lfloor>z + 1 / 2\<rfloor> = 0"
proof -
  from assms have "real_of_int 0 \<le> z + 1 / 2" and "z + 1 / 2 < real_of_int 0 + 1" by simp_all
  then show ?thesis by (rule floor_unique)
qed

lemma resampledLength_near_exact:
  assumes b: "0 < b" and ba: "b < a" and len: "len < 2 ^ 52"
    and n: "resampledLength len (num_div (Finite a) (Finite b)) = Finite (real n)"
  shows "\<bar>int n - round (real len / (a / b))\<bar> \<le> 1"
proof (cases "len = 0")
  case True
  from ratio_cases [OF b ba]
  have "resampledLength 0 (num_div (Finite a) (Finite b)) = Finite 0"
  proof (elim disjE exE conjE)
    assume "num_div (Finite a) (Finite b) = PosInf"
    then show ?thesis by (simp only: resampledLength_def) simp
  next
    fix r assume "num_div (Finite a) (Finite b) = Finite r" and "1 \<le> r"
    then show ?thesis by (simp only: resampledLength_def) (simp add: binary64_zero)
  qed
  with n True have "real n = 0" by simp
  then show ?thesis using True by simp
next
  case False
  define rho where "rho = a / b"
  let ?x = "real len / rho"
  have l52: "real len < 2 ^ 52"
    using len by (metis of_nat_less_iff of_nat_numeral of_nat_power)
  have l1: "1 \<le> real len" using False by simp
  from b ba have rho: "1 < rho" by (simp add: rho_def)
  have "\<bar>int n - round ?x\<bar> \<le> 1"
    using ratio_cases [OF b ba, folded rho_def]
  proof (elim disjE exE conjE)
    assume inf: "num_div (Finite a) (Finite b) = PosInf"
    have big: "2 ^ 1023 < rho"
    proof (rule ccontr)
      assume "\<not> 2 ^ 1023 < rho"
      then have "rho \<le> 2 ^ 1023" by simp
      moreover have "0 < rho" using rho by simp
      ultimately obtain y where "binary64 rho = Finite y" using binary64_close by blast
      with inf b show False by (simp add: rho_def)
    qed
    from inf n have "Finite (real n) = Finite 0" by (simp add: resampledLength_def)
    then have n0: "n = 0" by simp
    have "?x \<le> real len / 2 ^ 1023"
      by (rule frac_le [OF _ order_refl _ less_imp_le [OF big]]) simp_all
    also have "\<dots> < 2 ^ 52 / 2 ^ 1023" using l52 by (simp add: divide_strict_right_mono)
    also have "\<dots> \<le> 1 / 2" by simp
    finally have "?x < 1 / 2" .
    moreover have "0 \<le> ?x" using rho by simp
    ultimately have "\<lfloor>?x + 1 / 2\<rfloor> = 0" by (rule floor_half_zero)
    then show ?thesis using n0 by (simp only: round_def)
  next
    fix r assume ratio: "num_div (Finite a) (Finite b) = Finite r" and r: "1 \<le> r"
      and close: "\<bar>r - rho\<bar> \<le> rho / 2 ^ 53"
    let ?y = "real len / r"
    from False r have y: "0 < ?y" by simp
    have "real len / r \<le> real len / 1"
      using r by (intro divide_left_mono) simp_all
    then have yl: "?y \<le> real len" by simp
    then have "?y \<le> 2 ^ 1023"
      using l52 by (simp add: order_trans [OF _ power_increasing [of 52 1023 2]])
    from binary64_close [OF y this] obtain q where q: "binary64 ?y = Finite q" "0 \<le> q"
      "\<bar>q - ?y\<bar> \<le> max ?y (pow2 (- 1022)) / 2 ^ 53" by blast
    have "pow2 (- 1022) \<le> 1" by (simp add: pow2_def)
    with l1 yl have "max ?y (pow2 (- 1022)) \<le> real len" by simp
    then have "max ?y (pow2 (- 1022)) / 2 ^ 53 \<le> real len / 2 ^ 53"
      by (simp add: divide_right_mono)
    with q(3) have qy: "\<bar>q - ?y\<bar> \<le> real len / 2 ^ 53" by linarith
    have rpos: "0 < r" using r by linarith
    have rhopos: "0 < rho" using rho by linarith
    have "1 * rho \<le> r * rho" using r rhopos by (intro mult_right_mono) simp_all
    then have "rho / 2 ^ 53 \<le> r * rho / 2 ^ 53"
      by (simp add: divide_right_mono)
    with close have "\<bar>rho - r\<bar> \<le> r * rho / 2 ^ 53" by linarith
    then have "\<bar>rho - r\<bar> / (r * rho) \<le> (r * rho / 2 ^ 53) / (r * rho)"
      using rpos rhopos by (intro divide_right_mono) simp_all
    also have "\<dots> = 1 / 2 ^ 53" using rpos rhopos by simp
    finally have frac: "\<bar>rho - r\<bar> / (r * rho) \<le> 1 / 2 ^ 53" .
    have "?y - ?x = real len * ((rho - r) / (r * rho))"
      using rpos rhopos by (simp add: field_simps)
    then have "\<bar>?y - ?x\<bar> = real len * (\<bar>rho - r\<bar> / (r * rho))"
      using rpos rhopos by (simp add: abs_mult)
    also have "\<dots> \<le> real len * (1 / 2 ^ 53)"
      using frac by (intro mult_left_mono) simp_all
    finally have yx: "\<bar>?y - ?x\<bar> \<le> real len / 2 ^ 53" by simp
    have "real len / 2 ^ 53 < 2 ^ 52 / 2 ^ 53" using l52 by (simp add: divide_strict_right_mono)
    then have "real len / 2 ^ 53 < 1 / 2" by simp
    with qy yx have "\<bar>q - ?x\<bar> < 1" by linarith
    then have fl: "\<bar>\<lfloor>q + 1 / 2\<rfloor> - \<lfloor>?x + 1 / 2\<rfloor>\<bar> \<le> 1" by (rule floors_of_close_reals)
    have "num_div (Finite (real len)) (Finite r) = Finite q" using r q(1) by simp
    with n ratio have "Finite (real_of_int \<lfloor>q + 1 / 2\<rfloor>) = Finite (real n)"
      by (simp add: resampledLength_def)
    then have "real_of_int \<lfloor>q + 1 / 2\<rfloor> = real_of_int (int n)" by simp
    then have "\<lfloor>q + 1 / 2\<rfloor> = int n" by (simp only: of_int_eq_iff)
    with fl show ?thesis by (simp only: round_def)
  qed
  then show ?thesis by (simp only: rho_def)
qed

text \<open>
  Likewise the double product \<open>i * r\<close> lies close to the exact product of \<open>i\<close> and the
  ratio of the rates, so the source index differs from the exactly rounded one by at
  most 1.
\<close>

lemma sourceIndex_near_exact:
  assumes b: "0 < b" and ba: "b < a" and len: "len < 2 ^ 51"
    and n: "resampledLength len (num_div (Finite a) (Finite b)) = Finite (real n)"
    and i: "i < n"
    and idx: "sourceIndex (num_div (Finite a) (Finite b)) i = Finite (real idx)"
  shows "\<bar>int idx - round (real i * (a / b))\<bar> \<le> 1"
proof -
  define rho where "rho = a / b"
  from b ba have rho: "1 < rho" by (simp add: rho_def)
  from i have n1: "1 \<le> n" by simp
  have len52: "len < 2 ^ 52"
    using len by (rule less_trans) simp
  have l51: "real len < 2 ^ 51"
    using len by (metis of_nat_less_iff of_nat_numeral of_nat_power)
  from running_loop_ratio [OF b ba len52 n n1, folded rho_def] obtain r
    where r: "num_div (Finite a) (Finite b) = Finite r" "1 \<le> r"
      "\<bar>r - rho\<bar> \<le> rho / 2 ^ 53"
      "real n \<le> real len / r * (1 + 1 / 2 ^ 53) + 1 / 2"
    by blast
  have rpos: "0 < r" using r(2) by linarith
  let ?x = "real i * r"
  have x0: "0 \<le> ?x" using rpos by simp
  have xl: "?x \<le> real len * (4 / 3)"
  proof -
    from i have "real i + 1 \<le> real n" by linarith
    with r(4) have "real i + 1 / 2 \<le> real len / r * (1 + 1 / 2 ^ 53)" by linarith
    then have "(real i + 1 / 2) * r \<le> real len / r * (1 + 1 / 2 ^ 53) * r"
      using rpos by (intro mult_right_mono) simp_all
    moreover have "real len / r * (1 + 1 / 2 ^ 53) * r = real len * (1 + 1 / 2 ^ 53)"
      using rpos by simp
    moreover have "?x \<le> (real i + 1 / 2) * r"
      using rpos by (intro mult_right_mono) simp_all
    moreover have "real len * (1 + 1 / 2 ^ 53) \<le> real len * (4 / 3)"
      by (intro mult_left_mono) simp_all
    ultimately show ?thesis by linarith
  qed
  have x53: "3 * ?x / 2 ^ 53 < 1"
  proof -
    from xl l51 have "3 * ?x < 4 * 2 ^ 51" by linarith
    then have "3 * ?x / 2 ^ 53 < 4 * 2 ^ 51 / 2 ^ 53"
      by (intro divide_strict_right_mono) simp_all
    then show ?thesis by simp
  qed
  have "rho / 2 ^ 53 \<le> rho / 2"
    using rho by (intro divide_left_mono) simp_all
  with r(3) have rho2: "rho \<le> 2 * r" by linarith
  have exact: "\<bar>?x - real i * rho\<bar> \<le> 2 * ?x / 2 ^ 53"
  proof -
    have "?x - real i * rho = real i * (r - rho)" by (simp add: right_diff_distrib)
    then have "\<bar>?x - real i * rho\<bar> = real i * \<bar>r - rho\<bar>" by (simp add: abs_mult)
    also have "\<dots> \<le> real i * (rho / 2 ^ 53)"
      using r(3) by (intro mult_left_mono) simp_all
    also have "\<dots> \<le> real i * (2 * r / 2 ^ 53)"
      using rho2 by (intro mult_left_mono divide_right_mono) simp_all
    also have "\<dots> = 2 * ?x / 2 ^ 53" by simp
    finally show ?thesis .
  qed
  have "\<bar>int idx - round (real i * rho)\<bar> \<le> 1"
  proof (cases "i = 0")
    case True
    from idx r(1) True have "Finite (real idx) = Finite 0"
      by (simp add: sourceIndex_def binary64_zero)
    then have "idx = 0" by simp
    with True show ?thesis by simp
  next
    case False
    then have "1 \<le> real i" by simp
    with r(2) have "1 * 1 \<le> ?x" by (intro mult_mono) simp_all
    then have x1: "1 \<le> ?x" by simp
    then have xpos: "0 < ?x" by linarith
    from x53 x0 have "?x < 2 ^ 53" by simp
    then have "?x \<le> 2 ^ 1023"
      by (simp add: order_trans [OF less_imp_le power_increasing [of 53 1023 2]])
    from binary64_close [OF xpos this] obtain p where p: "binary64 ?x = Finite p"
      "\<bar>p - ?x\<bar> \<le> max ?x (pow2 (- 1022)) / 2 ^ 53" by blast
    have "pow2 (- 1022) \<le> 1" by (simp add: pow2_def)
    with x1 have "max ?x (pow2 (- 1022)) = ?x" by (intro max_absorb1) linarith
    with p(2) have "\<bar>p - ?x\<bar> \<le> ?x / 2 ^ 53" by simp
    then have "\<bar>p - real i * rho\<bar> \<le> ?x / 2 ^ 53 + 2 * ?x / 2 ^ 53"
      using exact by (rule abs_diff_via)
    also have "\<dots> = 3 * ?x / 2 ^ 53" by simp
    also note x53
    finally have "\<bar>p - real i * rho\<bar> < 1" .
    then have fl: "\<bar>\<lfloor>p + 1 / 2\<rfloor> - \<lfloor>real i * rho + 1 / 2\<rfloor>\<bar> \<le> 1"
      by (rule floors_of_close_reals)
    have "sourceIndex (Finite r) i = Finite (real_of_int \<lfloor>p + 1 / 2\<rfloor>)"
      by (simp add: sourceIndex_def p(1))
    with idx r(1) have "real_of_int \<lfloor>p + 1 / 2\<rfloor> = real_of_int (int idx)" by simp
    then have "\<lfloor>p + 1 / 2\<rfloor> = int idx" by (simp only: of_int_eq_iff)
    with fl show ?thesis by (simp only: round_def)
  qed
  then show ?thesis by (simp only: rho_def)
qed

text \<open>The doubles met at the inputs used below.\<close>

lemma binary64_18_7: "binary64 (18 / 7) = Finite (5790342378047781 / 2251799813685248)"
  using binary64_eval [of "18 / 7" 1 5790342378047781] by (simp add: pow2_def)

lemma binary64_9_by_ratio: "binary64 (6755399441055744 / 1930114126015927) = Finite (7881299347898367 / 2251799813685248)"
  using binary64_eval [of "6755399441055744 / 1930114126015927" 1 7881299347898367] by (simp add: pow2_def)

lemma binary64_1_times_ratio: "binary64 (5790342378047781 / 2251799813685248) = Finite (5790342378047781 / 2251799813685248)"
  using binary64_eval [of "5790342378047781 / 2251799813685248" 1 5790342378047781] by (simp add: pow2_def)

lemma binary64_2_times_ratio: "binary64 (5790342378047781 / 1125899906842624) = Finite (5790342378047781 / 1125899906842624)"
  using binary64_eval [of "5790342378047781 / 1125899906842624" 2 5790342378047781] by (simp add: pow2_def)

lemma binary64_13_6: "binary64 (13 / 6) = Finite (4878899596318037 / 2251799813685248)"
  using binary64_eval [of "13 / 6" 1 4878899596318037] by (simp add: pow2_def)

lemma binary64_60_by_ratio: "binary64 (135107988821114880 / 4878899596318037) = Finite (1948672915689157 / 70368744177664)"
  using binary64_eval [of "135107988821114880 / 4878899596318037" 4 7794691662756628] by (simp add: pow2_def)

lemma binary64_27_times_ratio: "binary64 (131730289100586999 / 2251799813685248) = Finite (8233143068786687 / 140737488355328)"
  using binary64_eval [of "131730289100586999 / 2251799813685248" 5 8233143068786687] by (simp add: pow2_def)




lemma binary64_3: "binary64 3 = Finite (3)"
  using binary64_eval [of "3" 1 6755399441055744] by (simp add: pow2_def)

lemma binary64_4096_by_3: "binary64 (4096 / 3) = Finite (6004799503160661 / 4398046511104)"
  using binary64_eval [of "4096 / 3" 10 6004799503160661] by (simp add: pow2_def)

section \<open>Base64: decoding inverts encoding\<close>

lemma b64_value_b64_char: "n < 64 \<Longrightarrow> b64_value (b64_char n) = Some n"
  by (auto simp add: b64_value_def b64_char_def)

lemma b64_char_not_pad: "b64_char n \<noteq> 61"
  unfolding b64_char_def by (simp; arith)

lemma b64_char_not_whitespace: "\<not> ascii_whitespace (b64_char n)"
  unfolding b64_char_def ascii_whitespace_def by (simp; arith)

lemma sextet_bounds:
  fixes a b c :: nat
  assumes "a < 256" "b < 256" "c < 256"
  shows "a div 4 < 64" and "(a mod 4) * 16 + b div 16 < 64"
    and "(b mod 16) * 4 + c div 64 < 64" and "c mod 64 < 64"
    and "(a mod 4) * 16 < 64" and "(b mod 16) * 4 < 64"
  using assms by arith+

lemma split16: fixes x y :: nat assumes "y < 16" shows "(x * 16 + y) div 16 = x" "(x * 16 + y) mod 16 = y"
  using assms by simp_all

lemma split4: fixes x y :: nat assumes "y < 4" shows "(x * 4 + y) div 4 = x" "(x * 4 + y) mod 4 = y"
  using assms by simp_all

lemma octet_first:
  fixes a b :: nat
  assumes "b < 256"
  shows "a div 4 * 4 + ((a mod 4) * 16 + b div 16) div 16 = a"
proof -
  have "b div 16 < 16" using assms by simp
  then have "((a mod 4) * 16 + b div 16) div 16 = a mod 4" by (rule split16)
  then show ?thesis by simp
qed

lemma octet_second:
  fixes a b c :: nat
  assumes "b < 256" "c < 256"
  shows "(((a mod 4) * 16 + b div 16) mod 16) * 16 + ((b mod 16) * 4 + c div 64) div 4 = b"
proof -
  have "b div 16 < 16" using assms by simp
  then have 1: "((a mod 4) * 16 + b div 16) mod 16 = b div 16" by (rule split16)
  have "c div 64 < 4" using assms by simp
  then have 2: "((b mod 16) * 4 + c div 64) div 4 = b mod 16" by (rule split4)
  show ?thesis unfolding 1 2 by simp
qed

lemma octet_third:
  fixes b c :: nat
  assumes "c < 256"
  shows "(((b mod 16) * 4 + c div 64) mod 4) * 64 + c mod 64 = c"
proof -
  have "c div 64 < 4" using assms by simp
  then have "((b mod 16) * 4 + c div 64) mod 4 = c div 64" by (rule split4)
  then show ?thesis by simp
qed

lemma octet_second_short:
  fixes a b :: nat
  assumes "b < 256"
  shows "(((a mod 4) * 16 + b div 16) mod 16) * 16 + ((b mod 16) * 4) div 4 = b"
proof -
  have "b div 16 < 16" using assms by simp
  then have 1: "((a mod 4) * 16 + b div 16) mod 16 = b div 16" by (rule split16)
  show ?thesis unfolding 1 by simp
qed

lemma octet_first_short:
  fixes a :: nat
  shows "a div 4 * 4 + ((a mod 4) * 16) div 16 = a"
  by simp

lemma sextets_bound: "\<forall>b\<in>set bs. b < 256 \<Longrightarrow> \<forall>v\<in>set (sextets bs). v < 64"
proof (induction bs rule: sextets.induct)
  case (1 a b c rest)
  then have "a < 256" "b < 256" "c < 256" by simp_all
  from sextet_bounds [OF this] 1 show ?case by simp
next
  case (2 a b)
  then have "a < 256" "b < 256" "(0::nat) < 256" by simp_all
  from sextet_bounds [OF this] show ?case by simp
next
  case (3 a)
  then have "a < 256" "(0::nat) < 256" "(0::nat) < 256" by simp_all
  from sextet_bounds [OF this] show ?case by simp
qed simp

lemma those_values_b64_char:
  "\<forall>v\<in>set vs. v < 64 \<Longrightarrow> those_values (map b64_char vs) = Some vs"
  by (induction vs) (simp_all add: b64_value_b64_char)

lemma octets_sextets: "\<forall>b\<in>set bs. b < 256 \<Longrightarrow> octets (sextets bs) = bs"
proof (induction bs rule: sextets.induct)
  case (1 a b c rest)
  then have "a < 256" "b < 256" "c < 256" and rest: "octets (sextets rest) = rest"
    by simp_all
  then show ?case
    by (simp only: sextets.simps octets.simps append.simps
        octet_first octet_second octet_third rest)
next
  case (2 a b)
  then have "a < 256" "b < 256" by simp_all
  then show ?case
    by (simp only: sextets.simps octets.simps append.simps octet_first octet_second_short)
next
  case (3 a)
  show ?case
    by (simp only: sextets.simps octets.simps octet_first_short)
qed simp

lemma length_sextets_mod:
  "length (sextets bs) mod 4 = (if length bs mod 3 = 0 then 0 else length bs mod 3 + 1)"
proof (induction bs rule: sextets.induct)
  case (1 a b c rest)
  have "length (a # b # c # rest) = length rest + 3" by simp
  then have l: "length (a # b # c # rest) mod 3 = length rest mod 3" by simp
  have "length (sextets (a # b # c # rest)) = length (sextets rest) + 4" by simp
  then have "length (sextets (a # b # c # rest)) mod 4 = length (sextets rest) mod 4" by simp
  then show ?case using 1 l by simp
qed simp_all

lemma mod3_cases:
  fixes n :: nat
  obtains (zero) "n mod 3 = 0" | (one) "n mod 3 = 1" | (two) "n mod 3 = 2"
proof -
  have "n mod 3 < 3" by simp
  then have "n mod 3 = 0 \<or> n mod 3 = 1 \<or> n mod 3 = 2" by linarith
  then show ?thesis
  proof (elim disjE)
    assume "n mod 3 = 0" then show thesis by (rule zero)
  next
    assume "n mod 3 = 1" then show thesis by (rule one)
  next
    assume "n mod 3 = 2" then show thesis by (rule two)
  qed
qed

lemma strip_padding_core:
  assumes np: "\<forall>c\<in>set core. c \<noteq> 61"
    and len: "length core mod 4 = (if n mod 3 = 0 then 0 else n mod 3 + 1)"
  shows "strip_padding (core @ b64_padding n) = core"
proof -
  have lastcore: "core \<noteq> [] \<Longrightarrow> last core \<noteq> 61"
    using np last_in_set by blast
  show ?thesis
  proof (cases n rule: mod3_cases)
    case zero
    then have "b64_padding n = []" by (simp add: b64_padding_def)
    then show ?thesis using lastcore by (auto simp add: strip_padding_def)
  next
    case one
    then have pad: "b64_padding n = [61, 61]" by (simp add: b64_padding_def)
    from one have "length core mod 4 = 2" using len by simp
    then have "(length core + 2) mod 4 = 0" by presburger
    then show ?thesis unfolding pad
      by (simp add: strip_padding_def butlast_append)
  next
    case two
    then have pad: "b64_padding n = [61]" by (simp add: b64_padding_def)
    from two have l3: "length core mod 4 = 3" using len by simp
    then have ne: "core \<noteq> []" by auto
    from l3 have "(length core + 1) mod 4 = 0" by presburger
    then have "Suc (length core) mod 4 = 0" by simp
    then show ?thesis unfolding pad using ne lastcore
      by (simp add: strip_padding_def)
  qed
qed

lemma b64_padding_not_whitespace: "\<forall>c\<in>set (b64_padding n). \<not> ascii_whitespace c"
  by (simp add: b64_padding_def ascii_whitespace_def)

lemma atob_btoa:
  assumes "\<forall>c\<in>set s. c < 256"
  shows "btoa s = Inr (map b64_char (sextets s) @ b64_padding (length s))"
    and "atob (map b64_char (sextets s) @ b64_padding (length s)) = Inr s"
proof -
  let ?core = "map b64_char (sextets s)"
  let ?pad = "b64_padding (length s)"
  have "\<not> list_ex (\<lambda>c. 255 < c) s"
    using assms by (auto simp add: list_ex_iff)
  then show "btoa s = Inr (?core @ ?pad)"
    by (simp add: btoa_def)
  have "\<forall>c\<in>set (?core @ ?pad). \<not> ascii_whitespace c"
    using b64_padding_not_whitespace [of "length s"]
    by (auto simp add: b64_char_not_whitespace)
  then have nows: "filter (\<lambda>c. \<not> ascii_whitespace c) (?core @ ?pad) = ?core @ ?pad"
    by (simp only: filter_id_conv)
  have np: "\<forall>c\<in>set ?core. c \<noteq> 61"
    by (simp add: b64_char_not_pad)
  have len: "length ?core mod 4 = (if length s mod 3 = 0 then 0 else length s mod 3 + 1)"
    by (simp add: length_sextets_mod)
  have strip: "strip_padding (?core @ ?pad) = ?core"
    using np len by (rule strip_padding_core)
  have not1: "length ?core mod 4 \<noteq> 1"
    unfolding len by simp
  have vals: "those_values ?core = Some (sextets s)"
    by (rule those_values_b64_char) (rule sextets_bound [OF assms])
  show "atob (?core @ ?pad) = Inr s"
    unfolding atob_def nows strip Let_def using not1
    by (simp add: vals octets_sextets [OF assms])
qed

lemma fromCharCodes_bound: "\<forall>c\<in>set (fromCharCodes bs). c < 256"
proof (induction bs)
  case (Cons b bs)
  have "unat b < 2 ^ LENGTH(8)" by (rule unsigned_less)
  then show ?case using Cons by simp
qed simp

lemma charCodes_fromCharCodes: "charCodes (fromCharCodes bs) = bs"
  by (induction bs) simp_all

lemma base64_roundtrip:
  "\<exists>base64. arrayBufferToBase64 buffer = Inr base64 \<and> base64ToArrayBuffer base64 = Inr buffer"
  using atob_btoa [OF fromCharCodes_bound [of buffer]]
  by (simp add: arrayBufferToBase64_def base64ToArrayBuffer_def charCodes_fromCharCodes)

section \<open>Scheduler: runs without interruption\<close>



lemma enqueue_decoded:
  assumes "decodeAudioData b 24000 = Inr buf"
  shows "nodes (enqueue t b s) =
           nodes s @ [\<lparr>node_start = max (nextStartTimeRef s) t,
                       node_duration = duration buf, node_status = Playing\<rparr>]"
    and "nextStartTimeRef (enqueue t b s) = max (nextStartTimeRef s) t + duration buf"
    and "sourcesRef (enqueue t b s) =
           (if length (nodes s) \<in> set (sourcesRef s) then sourcesRef s
            else sourcesRef s @ [length (nodes s)])"
    and "outputContextRef (enqueue t b s) = outputContextRef s"
  using assms by (simp_all add: enqueue_def Let_def)







section \<open>Stopping playback and releasing resources\<close>

lemma length_stop_each: "length (stop_each hs ns) = length ns"
  by (induction hs arbitrary: ns) (simp_all add: source_stop_def)

lemma stop_each_status:
  assumes "k < length ns"
  shows "node_status (stop_each hs ns ! k) =
     (if k \<in> set hs \<and> node_status (ns ! k) = Playing then Stopped else node_status (ns ! k))"
  using assms
proof (induction hs arbitrary: ns)
  case Nil
  show ?case by simp
next
  case (Cons h hs)
  let ?ns1 = "case source_stop h ns of Inl e \<Rightarrow> ns | Inr ns' \<Rightarrow> ns'"
  have len: "length ?ns1 = length ns"
    by (simp add: source_stop_def)
  have st: "node_status (?ns1 ! k) =
      (if k = h \<and> node_status (ns ! k) = Playing then Stopped else node_status (ns ! k))"
    using Cons.prems by (auto simp add: source_stop_def nth_list_update)
  from Cons.prems len have "k < length ?ns1" by simp
  from Cons.IH [OF this] show ?case
    by (simp only: stop_each.simps st) auto
qed

lemma stop_each_empty: "stop_each [] ns = ns"
  by simp

lemma status_of_interrupt:
  "status_of (interrupt s) h =
     (if h \<in> set (sourcesRef s) \<and> status_of s h = Playing then Stopped else status_of s h)"
  by (simp add: status_of_def interrupt_def length_stop_each stop_each_status)

lemma interrupt_fields:
  "sourcesRef (interrupt s) = []" "nextStartTimeRef (interrupt s) = 0"
  "outputContextRef (interrupt s) = outputContextRef s"
  by (simp_all add: interrupt_def)

lemma invoke_Some: "invoke (Some h) eff s = Inr (s\<lparr>effects := effects s @ [eff h]\<rparr>)"
  by (simp add: invoke_def)

lemma close_session_ok: "\<exists>s'. close_session s = Inr s' \<and> sessionPromiseRef s' = None"
  by (cases "sessionPromiseRef s") (simp_all add: close_session_def and_then_def invoke_def)

lemma disconnect_eq: "disconnect s = Inr (disconnected_form s)"
  by (cases "sessionPromiseRef s"; cases "streamRef s"; cases "processorRef s";
      cases "inputSourceRef s"; cases "inputContextRef s"; cases "outputContextRef s")
     (simp_all add: disconnect_def close_session_def stop_tracks_def disconnect_nodes_def
        close_contexts_def and_then_def invoke_def disconnected_form_def)

section \<open>Claims about sample-format conversion and transport\<close>

text \<open>
  C3. Forward conversion turns every sample into a 16-bit integer by clamping it to
  \<open>[-1, 1]\<close>, scaling a negative value by 32768 and any other by 32767, and
  truncating towards zero. The product always fits into 16 bits, so the stored integer
  is the truncated product itself; the buffer holds two bytes per sample, low byte
  first, and reading it back as an \<^verbatim>\<open>Int16Array\<close> yields the samples' integers in
  order. The sample 1.0 becomes 32767 and -1.0 becomes -32768.
\<close>

theorem float32To16BitPCM_clamp_scale_truncate:
  "length (float32To16BitPCM frame) = 2 * length frame
   \<and> Int16Array (float32To16BitPCM frame) = Inr (map pcm_sample frame)
   \<and> sint (pcm_sample x) =
        (if max (- 1) (min 1 x) < 0 then \<lceil>max (- 1) (min 1 x) * 32768\<rceil>
         else \<lfloor>max (- 1) (min 1 x) * 32767\<rfloor>)
   \<and> - 32768 \<le> sint (pcm_sample x) \<and> sint (pcm_sample x) \<le> 32767
   \<and> sint (pcm_sample 1) = 32767
   \<and> sint (pcm_sample (- 1)) = - 32768
   \<and> float32To16BitPCM [1, - 1] = [255, 127, 0, 128]"
proof -
  have formula: "sint (pcm_sample x) =
        (if max (- 1) (min 1 x) < 0 then \<lceil>max (- 1) (min 1 x) * 32768\<rceil>
         else \<lfloor>max (- 1) (min 1 x) * 32767\<rfloor>)"
  proof (cases "max (- 1) (min 1 x) < 0")
    case True
    then have "pcm_scaled x = max (- 1) (min 1 x) * 32768" "pcm_scaled x < 0"
      by (simp_all add: pcm_scaled_def Let_def)
    then show ?thesis using True by (simp add: sint_pcm_sample js_trunc_def)
  next
    case False
    then have "pcm_scaled x = max (- 1) (min 1 x) * 32767" "\<not> pcm_scaled x < 0"
      by (simp_all add: pcm_scaled_def Let_def)
    then show ?thesis using False by (simp add: sint_pcm_sample js_trunc_def)
  qed
  have range: "- 32768 \<le> sint (pcm_sample x) \<and> sint (pcm_sample x) \<le> 32767"
    using js_trunc_scaled_bounds [of x] by (simp add: sint_pcm_sample)
  have one: "sint (pcm_sample 1) = 32767"
    by (simp add: sint_pcm_sample pcm_scaled_def js_trunc_def)
  have minus_one: "sint (pcm_sample (- 1)) = - 32768"
    by (simp add: sint_pcm_sample pcm_scaled_def js_trunc_def)
  have bytes: "float32To16BitPCM [1, - 1] = [255, 127, 0, 128]"
    by (simp add: pcm_sample_def pcm_scaled_def ToInt16_def js_trunc_def setInt16_le_def)
  show ?thesis
    using length_float32To16BitPCM [of frame] Int16Array_float32To16BitPCM [of frame]
      formula range one minus_one bytes
    by blast
qed

text \<open>
  C2, as the specification states it: encoding a frame and decoding it again stays
  within \<open>1/32768\<close> of every sample. The sample \<open>65535/65536\<close> is a float32 value;
  it encodes to 32766 and decodes to \<open>16383/16384\<close>, which is \<open>3/65536\<close> away.
\<close>

theorem pcm_roundtrip_counterexample:
  "Int16Array (float32To16BitPCM [65535 / 65536]) = Inr [32766]
   \<and> int16ToFloat32 [32766] = [16383 / 16384]
   \<and> \<not> \<bar>16383 / 16384 - 65535 / 65536\<bar> \<le> (1 / 32768 :: real)"
  by (simp add: pcm_sample_def pcm_scaled_def ToInt16_def js_trunc_def setInt16_le_def
      getInt16_le_def)

text \<open>
  C2, amended. For a frame whose samples lie in \<open>[-1, 1]\<close>, encoding and decoding
  succeeds, keeps the length, and every decoded value is less than \<open>2/32768\<close> away
  from the sample it came from; for a sample that is not positive the distance is less
  than \<open>1/32768\<close>.
\<close>

theorem pcm_roundtrip_bound:
  assumes "\<forall>x\<in>set frame. - 1 \<le> x \<and> x \<le> 1"
  shows "\<exists>samples. Int16Array (float32To16BitPCM frame) = Inr samples
     \<and> length (int16ToFloat32 samples) = length frame
     \<and> (\<forall>i<length frame.
           \<bar>int16ToFloat32 samples ! i - frame ! i\<bar> < 2 / 32768
         \<and> (frame ! i \<le> 0 \<longrightarrow> \<bar>int16ToFloat32 samples ! i - frame ! i\<bar> < 1 / 32768))"
proof -
  let ?samples = "map pcm_sample frame"
  have dec: "Int16Array (float32To16BitPCM frame) = Inr ?samples"
    by (rule Int16Array_float32To16BitPCM)
  have len: "length (int16ToFloat32 ?samples) = length frame"
    by (simp add: int16ToFloat32_map)
  have near: "\<bar>int16ToFloat32 ?samples ! i - frame ! i\<bar> < 2 / 32768
         \<and> (frame ! i \<le> 0 \<longrightarrow> \<bar>int16ToFloat32 ?samples ! i - frame ! i\<bar> < 1 / 32768)"
    if i: "i < length frame" for i
  proof -
    from i assms have b: "- 1 \<le> frame ! i" "frame ! i \<le> 1"
      by (simp_all add: nth_mem)
    have v: "int16ToFloat32 ?samples ! i = real_of_int (sint (pcm_sample (frame ! i))) / 32768"
      using i by (simp add: int16ToFloat32_map)
    show ?thesis
      unfolding v using roundtrip_sample [OF b] by simp
  qed
  from dec len near show ?thesis by blast
qed

theorem pcm_roundtrip_bound_witness:
  "(- 1 \<le> (65535 / 65536 :: real) \<and> (65535 / 65536 :: real) \<le> 1)
   \<and> (- 1 \<le> (- 1 / 2 :: real) \<and> (- 1 / 2 :: real) \<le> 1)
   \<and> (\<exists>samples. Int16Array (float32To16BitPCM [65535 / 65536, - 1 / 2]) = Inr samples
     \<and> length (int16ToFloat32 samples) = length [65535 / 65536, - 1 / 2 :: real]
     \<and> (\<forall>i<length [65535 / 65536, - 1 / 2 :: real].
           \<bar>int16ToFloat32 samples ! i - [65535 / 65536, - 1 / 2] ! i\<bar> < 2 / 32768
         \<and> ([65535 / 65536, - 1 / 2 :: real] ! i \<le> 0 \<longrightarrow>
              \<bar>int16ToFloat32 samples ! i - [65535 / 65536, - 1 / 2] ! i\<bar> < 1 / 32768)))"
proof -
  have h: "\<forall>x\<in>set [65535 / 65536, - 1 / 2 :: real]. - 1 \<le> x \<and> x \<le> 1"
    by simp
  have a: "- 1 \<le> (65535 / 65536 :: real) \<and> (65535 / 65536 :: real) \<le> 1"
    and b: "- 1 \<le> (- 1 / 2 :: real) \<and> (- 1 / 2 :: real) \<le> 1"
    by simp_all
  note c = pcm_roundtrip_bound [OF h]
  show ?thesis by (rule conjI [OF a conjI [OF b c]])
qed

text \<open>
  C7. The bytes produced by forward conversion survive the transport encoding:
  \<^verbatim>\<open>arrayBufferToBase64\<close> succeeds on them, and \<^verbatim>\<open>base64ToArrayBuffer\<close> applied to
  its result returns the very same bytes. The same holds for every byte buffer.
\<close>

theorem base64_roundtrip_pcm:
  "(\<exists>base64. arrayBufferToBase64 (float32To16BitPCM frame) = Inr base64
        \<and> base64ToArrayBuffer base64 = Inr (float32To16BitPCM frame))
   \<and> (\<exists>base64. arrayBufferToBase64 buffer = Inr base64
        \<and> base64ToArrayBuffer base64 = Inr buffer)"
  using base64_roundtrip [of "float32To16BitPCM frame"] base64_roundtrip [of buffer]
  by (rule conjI)

section \<open>Claims about decimation\<close>

lemma downsampleBuffer_entry:
  assumes "\<not> num_eq a b" and "\<not> num_less a b"
    and "ToIndex (resampledLength (length buffer) (num_div a b)) = Inr n" and "i < n"
  shows "map_sum id (\<lambda>result. (length result, result ! i)) (downsampleBuffer buffer a b)
       = Inr (n, copied_sample buffer (sourceIndex (num_div a b) i))"
  using assms by (simp add: downsampleBuffer_def Let_def)

text \<open>
  C4, as the specification states it: with the input rate above the output rate, every
  output index \<open>i\<close> holds the input sample at index \<open>round (i * inputRate / outputRate)\<close>.
  Take the 60 samples \<open>0, 1, \<dots>, 59\<close> from rate 13 to rate 6. The code returns 28
  samples and its entry 27 is the sample at index 58: the double nearest to \<open>13/6\<close>
  lies below it, so the product with 27 is a double below \<open>58.5\<close>. The stated index is
  \<open>round (27 * 13 / 6) = 59\<close>, which holds another sample.
\<close>

theorem downsampleBuffer_contract_counterexample:
  "map_sum id (\<lambda>result. (length result, result ! 27))
     (downsampleBuffer (map real [0 ..< 60]) (Finite 13) (Finite 6)) = Inr (28, 58)
   \<and> round (27 * (13 / 6) :: real) = (59 :: int)
   \<and> map real [0 ..< 60] ! 59 = 59"
proof -
  have len: "ToIndex (resampledLength (length (map real [0 ..< 60]))
      (num_div (Finite 13) (Finite 6))) = Inr 28"
    by (simp add: resampledLength_def binary64_13_6 binary64_60_by_ratio js_trunc_def)
  have idx: "sourceIndex (num_div (Finite 13) (Finite 6)) 27 = Finite 58"
    by (simp add: sourceIndex_def binary64_13_6 binary64_27_times_ratio)
  have "copied_sample (map real [0 ..< 60]) (Finite 58) = 58"
    by (simp add: copied_sample_def)
  with downsampleBuffer_entry [OF _ _ len, of 27] idx
  have code: "map_sum id (\<lambda>result. (length result, result ! 27))
     (downsampleBuffer (map real [0 ..< 60]) (Finite 13) (Finite 6)) = Inr (28, 58)"
    by simp
  have stated: "round (27 * (13 / 6) :: real) = (59 :: int)"
    by (simp add: round_def)
  have other: "map real [0 ..< 60] ! 59 = 59"
    by simp
  from code stated other show ?thesis by (intro conjI)
qed

text \<open>
  C4, amended. When the input rate equals the output rate or lies below it,
  \<^verbatim>\<open>downsampleBuffer\<close> returns the frame unchanged. For positive rates with the input
  rate above the output rate (and a frame shorter than \<open>2^51\<close>) it returns a frame of
  \<open>Math.round (L / r)\<close> entries, \<open>r\<close> being the double quotient of the rates and the
  division by \<open>r\<close> a double division; entry \<open>i\<close> is the input sample at index
  \<open>Math.round (i * r)\<close>, the product being a double product, copied as it is, or 0 when
  that index is not below the input length. That index differs by at most 1 from
  \<open>round (i * inputRate / outputRate)\<close> computed exactly.
\<close>

theorem downsampleBuffer_contract:
  "(num_eq inRate outRate \<or> num_less inRate outRate \<longrightarrow>
      downsampleBuffer buffer inRate outRate = Inr buffer)
   \<and> (0 < b \<and> b < a \<and> length buffer < 2 ^ 51 \<longrightarrow>
        (\<exists>result n. downsampleBuffer buffer (Finite a) (Finite b) = Inr result
           \<and> resampledLength (length buffer) (num_div (Finite a) (Finite b)) = Finite (real n)
           \<and> length result = n
           \<and> (\<forall>i<n. \<exists>idx.
                  sourceIndex (num_div (Finite a) (Finite b)) i = Finite (real idx)
                \<and> result ! i = (if idx < length buffer then buffer ! idx else 0)
                \<and> \<bar>int idx - round (real i * (a / b))\<bar> \<le> 1)))"
proof (intro conjI impI)
  assume "num_eq inRate outRate \<or> num_less inRate outRate"
  then show "downsampleBuffer buffer inRate outRate = Inr buffer"
    by (auto simp add: downsampleBuffer_def)
next
  assume h: "0 < b \<and> b < a \<and> length buffer < 2 ^ 51"
  then have rates: "0 < b" "b < a" and len51: "length buffer < 2 ^ 51" by simp_all
  from len51 have len: "length buffer < 2 ^ 52" by (rule less_trans) simp
  let ?ratio = "num_div (Finite a) (Finite b)"
  from downsampleBuffer_of_rates [OF rates len] obtain n
    where n: "resampledLength (length buffer) ?ratio = Finite (real n)"
      and res: "downsampleBuffer buffer (Finite a) (Finite b) =
          Inr (map (\<lambda>i. copied_sample buffer (sourceIndex ?ratio i)) [0 ..< n])"
    by blast
  let ?result = "map (\<lambda>i. copied_sample buffer (sourceIndex ?ratio i)) [0 ..< n]"
  have "\<exists>idx. sourceIndex ?ratio i = Finite (real idx)
        \<and> ?result ! i = (if idx < length buffer then buffer ! idx else 0)
        \<and> \<bar>int idx - round (real i * (a / b))\<bar> \<le> 1"
    if i: "i < n" for i
  proof -
    from sourceIndex_of_rates [OF rates len n i] obtain idx
      where idx: "sourceIndex ?ratio i = Finite (real idx)" by blast
    have "?result ! i = copied_sample buffer (sourceIndex ?ratio i)"
      using i by simp
    then have "?result ! i = (if idx < length buffer then buffer ! idx else 0)"
      by (simp only: idx copied_sample_nat)
    moreover have "\<bar>int idx - round (real i * (a / b))\<bar> \<le> 1"
      using rates len51 n i idx by (rule sourceIndex_near_exact)
    ultimately show ?thesis using idx by blast
  qed
  moreover have "length ?result = n" by simp
  ultimately show "\<exists>result n. downsampleBuffer buffer (Finite a) (Finite b) = Inr result
           \<and> resampledLength (length buffer) ?ratio = Finite (real n)
           \<and> length result = n
           \<and> (\<forall>i<n. \<exists>idx.
                  sourceIndex ?ratio i = Finite (real idx)
                \<and> result ! i = (if idx < length buffer then buffer ! idx else 0)
                \<and> \<bar>int idx - round (real i * (a / b))\<bar> \<le> 1)"
    using res n by blast
qed

theorem downsampleBuffer_contract_witness:
  "(num_eq (Finite 16000) (Finite 16000) \<or> num_less (Finite 16000) (Finite 16000))
   \<and> downsampleBuffer [1, 2, 3, 4, 5, 6, 7] (Finite 16000) (Finite 16000) = Inr [1, 2, 3, 4, 5, 6, 7]
   \<and> (0 :: real) < 16000 \<and> (16000 :: real) < 48000
   \<and> length [1, 2, 3, 4, 5, 6, 7 :: real] < 2 ^ 51
   \<and> (\<exists>result n. downsampleBuffer [1, 2, 3, 4, 5, 6, 7] (Finite 48000) (Finite 16000) = Inr result
           \<and> resampledLength (length [1, 2, 3, 4, 5, 6, 7 :: real])
                (num_div (Finite 48000) (Finite 16000)) = Finite (real n)
           \<and> length result = n
           \<and> (\<forall>i<n. \<exists>idx.
                  sourceIndex (num_div (Finite 48000) (Finite 16000)) i = Finite (real idx)
                \<and> result ! i = (if idx < length [1, 2, 3, 4, 5, 6, 7 :: real]
                                 then [1, 2, 3, 4, 5, 6, 7] ! idx else 0)
                \<and> \<bar>int idx - round (real i * (48000 / 16000))\<bar> \<le> 1))"
proof -
  have same: "num_eq (Finite 16000) (Finite 16000) \<or> num_less (Finite 16000) (Finite 16000)"
    by simp
  have lo: "(0 :: real) < 16000" and hi: "(16000 :: real) < 48000"
    and short: "length [1, 2, 3, 4, 5, 6, 7 :: real] < 2 ^ 51" by simp_all
  note t = downsampleBuffer_contract
    [of "Finite 16000" "Finite 16000" "[1, 2, 3, 4, 5, 6, 7]" 16000 48000]
  from t same
  have unchanged: "downsampleBuffer [1, 2, 3, 4, 5, 6, 7] (Finite 16000) (Finite 16000)
      = Inr [1, 2, 3, 4, 5, 6, 7]"
    by blast
  from lo hi short have "0 < (16000 :: real) \<and> (16000 :: real) < 48000
      \<and> length [1, 2, 3, 4, 5, 6, 7 :: real] < 2 ^ 51" by (intro conjI)
  with t [THEN conjunct2]
  have copied: "\<exists>result n. downsampleBuffer [1, 2, 3, 4, 5, 6, 7] (Finite 48000) (Finite 16000) = Inr result
           \<and> resampledLength (length [1, 2, 3, 4, 5, 6, 7 :: real])
                (num_div (Finite 48000) (Finite 16000)) = Finite (real n)
           \<and> length result = n
           \<and> (\<forall>i<n. \<exists>idx.
                  sourceIndex (num_div (Finite 48000) (Finite 16000)) i = Finite (real idx)
                \<and> result ! i = (if idx < length [1, 2, 3, 4, 5, 6, 7 :: real]
                                 then [1, 2, 3, 4, 5, 6, 7] ! idx else 0)
                \<and> \<bar>int idx - round (real i * (48000 / 16000))\<bar> \<le> 1)"
    by (rule mp)
  show ?thesis
    by (rule conjI [OF same conjI [OF unchanged conjI [OF lo conjI [OF hi conjI [OF short copied]]]]])
qed

text \<open>
  C5, as the specification states it: the output has exactly \<open>round (L / r)\<close> samples
  for \<open>r = inputRate / outputRate \<ge> 1\<close>. Nine samples taken from rate 18 to rate 7
  give \<open>9 / (18 / 7) = 3.5\<close>, which rounds to 4; the code returns 3 samples, because
  the double nearest to \<open>18/7\<close> lies above it and the double quotient lies below \<open>3.5\<close>.
\<close>

theorem downsampleBuffer_length_counterexample:
  "downsampleBuffer [1, 2, 3, 4, 5, 6, 7, 8, 9] (Finite 18) (Finite 7) = Inr [1, 4, 6]
   \<and> length [1, 4, 6 :: real] = 3
   \<and> round (real (length [1, 2, 3, 4, 5, 6, 7, 8, 9 :: real]) / (18 / 7)) = (4 :: int)"
proof -
  have code: "downsampleBuffer [1, 2, 3, 4, 5, 6, 7, 8, 9] (Finite 18) (Finite 7) = Inr [1, 4, 6]"
    by (simp add: downsampleBuffer_def resampledLength_def sourceIndex_def copied_sample_def
        binary64_18_7 binary64_9_by_ratio binary64_1_times_ratio binary64_2_times_ratio
        binary64_zero js_trunc_def Let_def upt_rec)
  have three: "length [1, 4, 6 :: real] = 3" by simp
  have stated: "round (real (length [1, 2, 3, 4, 5, 6, 7, 8, 9 :: real]) / (18 / 7)) = (4 :: int)"
    by (simp add: round_def)
  from code three stated show ?thesis by (intro conjI)
qed

text \<open>
  C5, amended. For positive rates with the input rate above the output rate (and a frame
  shorter than \<open>2^52\<close>), \<^verbatim>\<open>downsampleBuffer\<close> returns normally and its output has
  \<open>Math.round (L / r)\<close> samples, where \<open>r\<close> is the double quotient of the rates and
  \<open>L / r\<close> the double quotient of the input length by \<open>r\<close>; that is never more than
  \<open>L\<close> and differs by at most 1 from \<open>round (L / (inputRate / outputRate))\<close> computed
  exactly. For equal rates the output is the input, of length \<open>L\<close>. A frame of 4096
  samples taken from 48000 Hz to 16000 Hz has 1365 samples.
\<close>

theorem downsampleBuffer_length:
  "(0 < b \<and> b < a \<and> length buffer < 2 ^ 52 \<longrightarrow>
      (\<exists>result n. downsampleBuffer buffer (Finite a) (Finite b) = Inr result
         \<and> length result = n \<and> n \<le> length buffer
         \<and> Math_round (num_div (Finite (real (length buffer))) (num_div (Finite a) (Finite b)))
             = Finite (real n)
         \<and> \<bar>int n - round (real (length buffer) / (a / b))\<bar> \<le> 1))
   \<and> (num_eq rate rate' \<longrightarrow>
      (\<exists>result. downsampleBuffer buffer rate rate' = Inr result
         \<and> length result = length buffer))
   \<and> (length frame = 4096 \<longrightarrow>
      (\<exists>result. downsampleBuffer frame (Finite 48000) (Finite 16000) = Inr result
         \<and> length result = 1365))"
proof (intro conjI impI)
  assume h: "0 < b \<and> b < a \<and> length buffer < 2 ^ 52"
  then have rates: "0 < b" "b < a" and len: "length buffer < 2 ^ 52" by simp_all
  let ?ratio = "num_div (Finite a) (Finite b)"
  from downsampleBuffer_of_rates [OF rates len] obtain n
    where n: "resampledLength (length buffer) ?ratio = Finite (real n)" "n \<le> length buffer"
      and res: "downsampleBuffer buffer (Finite a) (Finite b) =
          Inr (map (\<lambda>i. copied_sample buffer (sourceIndex ?ratio i)) [0 ..< n])"
    by blast
  from n(1) have "Math_round (num_div (Finite (real (length buffer))) ?ratio) = Finite (real n)"
    by (simp only: resampledLength_def)
  moreover have "length (map (\<lambda>i. copied_sample buffer (sourceIndex ?ratio i)) [0 ..< n]) = n"
    by simp
  moreover have "\<bar>int n - round (real (length buffer) / (a / b))\<bar> \<le> 1"
    using rates len n(1) by (rule resampledLength_near_exact)
  ultimately show "\<exists>result n. downsampleBuffer buffer (Finite a) (Finite b) = Inr result
         \<and> length result = n \<and> n \<le> length buffer
         \<and> Math_round (num_div (Finite (real (length buffer))) ?ratio) = Finite (real n)
         \<and> \<bar>int n - round (real (length buffer) / (a / b))\<bar> \<le> 1"
    using res n(2) by blast
next
  assume "num_eq rate rate'"
  then have "downsampleBuffer buffer rate rate' = Inr buffer"
    by (simp add: downsampleBuffer_def)
  then show "\<exists>result. downsampleBuffer buffer rate rate' = Inr result
         \<and> length result = length buffer"
    by simp
next
  assume len: "length frame = 4096"
  have "ToIndex (resampledLength (length frame) (num_div (Finite 48000) (Finite 16000)))
      = Inr 1365"
    by (simp add: len resampledLength_def binary64_3 binary64_4096_by_3 js_trunc_def)
  then have "downsampleBuffer frame (Finite 48000) (Finite 16000) =
      Inr (map (\<lambda>i. copied_sample frame (sourceIndex (num_div (Finite 48000) (Finite 16000)) i))
            [0 ..< 1365])"
    by (simp add: downsampleBuffer_def Let_def del: upt_rec_numeral num_div.simps)
  moreover have "length (map (\<lambda>i. copied_sample frame
      (sourceIndex (num_div (Finite 48000) (Finite 16000)) i)) [0 ..< 1365]) = 1365"
    by (simp only: length_map length_upt)
  ultimately show "\<exists>result. downsampleBuffer frame (Finite 48000) (Finite 16000) = Inr result
         \<and> length result = 1365"
    by blast
qed

theorem downsampleBuffer_length_witness:
  "(0 :: real) < 16000 \<and> (16000 :: real) < 44100
   \<and> length [1, 2, 3, 4, 5, 6, 7 :: real] < 2 ^ 52
   \<and> (\<exists>result n. downsampleBuffer [1, 2, 3, 4, 5, 6, 7] (Finite 44100) (Finite 16000) = Inr result
         \<and> length result = n \<and> n \<le> length [1, 2, 3, 4, 5, 6, 7 :: real]
         \<and> Math_round (num_div (Finite (real (length [1, 2, 3, 4, 5, 6, 7 :: real])))
              (num_div (Finite 44100) (Finite 16000))) = Finite (real n)
         \<and> \<bar>int n - round (real (length [1, 2, 3, 4, 5, 6, 7 :: real]) / (44100 / 16000))\<bar> \<le> 1)
   \<and> num_eq (Finite 16000) (Finite 16000)
   \<and> (\<exists>result. downsampleBuffer [1, 2, 3, 4, 5, 6, 7] (Finite 16000) (Finite 16000) = Inr result
         \<and> length result = length [1, 2, 3, 4, 5, 6, 7 :: real])
   \<and> length (replicate 4096 (0 :: real)) = 4096
   \<and> (\<exists>result. downsampleBuffer (replicate 4096 0) (Finite 48000) (Finite 16000) = Inr result
         \<and> length result = 1365)"
proof -
  have lo: "(0 :: real) < 16000" and hi: "(16000 :: real) < 44100"
    and short: "length [1, 2, 3, 4, 5, 6, 7 :: real] < 2 ^ 52" by simp_all
  have eq: "num_eq (Finite 16000) (Finite 16000)" by simp
  have l: "length (replicate 4096 (0 :: real)) = 4096" by (rule length_replicate)
  note t = downsampleBuffer_length
    [of 16000 44100 "[1, 2, 3, 4, 5, 6, 7]" "Finite 16000" "Finite 16000" "replicate 4096 0"]
  from lo hi short have "0 < (16000 :: real) \<and> (16000 :: real) < 44100
      \<and> length [1, 2, 3, 4, 5, 6, 7 :: real] < 2 ^ 52" by (intro conjI)
  with t [THEN conjunct1]
  have c: "\<exists>result n. downsampleBuffer [1, 2, 3, 4, 5, 6, 7] (Finite 44100) (Finite 16000) = Inr result
         \<and> length result = n \<and> n \<le> length [1, 2, 3, 4, 5, 6, 7 :: real]
         \<and> Math_round (num_div (Finite (real (length [1, 2, 3, 4, 5, 6, 7 :: real])))
              (num_div (Finite 44100) (Finite 16000))) = Finite (real n)
         \<and> \<bar>int n - round (real (length [1, 2, 3, 4, 5, 6, 7 :: real]) / (44100 / 16000))\<bar> \<le> 1"
    by (rule mp)
  from t [THEN conjunct2, THEN conjunct1] eq
  have d: "\<exists>result. downsampleBuffer [1, 2, 3, 4, 5, 6, 7] (Finite 16000) (Finite 16000) = Inr result
         \<and> length result = length [1, 2, 3, 4, 5, 6, 7 :: real]"
    by (rule mp)
  from t [THEN conjunct2, THEN conjunct2] l
  have e: "\<exists>result. downsampleBuffer (replicate 4096 0) (Finite 48000) (Finite 16000) = Inr result
         \<and> length result = 1365"
    by (rule mp)
  show ?thesis
    by (rule conjI [OF lo conjI [OF hi conjI [OF short conjI [OF c conjI [OF eq
        conjI [OF d conjI [OF l e]]]]]]])
qed




section \<open>Claims about the playback scheduler\<close>

lemma outputContextRef_enqueue: "outputContextRef (enqueue t b s) = outputContextRef s"
  by (cases "decodeAudioData b 24000") (simp_all add: enqueue_def Let_def)



lemma onmessage_audio:
  assumes "b \<noteq> []" and "outputContextRef s \<noteq> None"
  shows "onmessage t \<lparr>inlineData = Some b, interrupted = False\<rparr> s = enqueue t b s"
  using assms by (simp add: onmessage_def)



lemma decode_one_sample:
  "decodeAudioData [65, 65, 65, 61] 24000 = Inr \<lparr>channelData = [0], sampleRate = 24000\<rparr>"
  by (simp add: decodeAudioData_def base64ToArrayBuffer_def atob_def ascii_whitespace_def
      strip_padding_def b64_value_def createBuffer_def getInt16_le_def Let_def)


text \<open>
  C6. A message carrying the interruption flag leaves the set of live handles empty and
  the cursor at 0, and no handle that was live is still playing: a playing one is
  stopped, and the error raised by stopping one that is not playing is swallowed. An
  audio message handled afterwards at a clock reading \<open>t \<ge> 0\<close> is scheduled at \<open>t\<close>,
  whatever the cursor was before the interruption.
\<close>

theorem interrupt_resets_scheduler:
  assumes "interrupted message"
  shows "sourcesRef (onmessage currentTime message s) = []
    \<and> nextStartTimeRef (onmessage currentTime message s) = 0
    \<and> (\<forall>h\<in>set (sourcesRef s).
          status_of (onmessage currentTime message s) h \<noteq> Playing
        \<and> (status_of s h = Playing \<longrightarrow> status_of (onmessage currentTime message s) h = Stopped))
    \<and> (\<forall>h\<in>set (sourcesRef s). status_of (interrupt s) h \<noteq> Playing)
    \<and> (\<forall>t b audioBuffer.
          0 \<le> t \<longrightarrow> b \<noteq> [] \<longrightarrow> outputContextRef s \<noteq> None \<longrightarrow>
          decodeAudioData b 24000 = Inr audioBuffer \<longrightarrow>
            nodes (onmessage t \<lparr>inlineData = Some b, interrupted = False\<rparr>
                     (onmessage currentTime message s)) =
              nodes (onmessage currentTime message s) @
                [\<lparr>node_start = t, node_duration = duration audioBuffer, node_status = Playing\<rparr>])"
proof -
  define s1 where "s1 =
    (case inlineData message of
       None \<Rightarrow> s
     | Some base64Audio \<Rightarrow>
         if base64Audio \<noteq> [] \<and> outputContextRef s \<noteq> None
         then enqueue currentTime base64Audio s else s)"
  have om: "onmessage currentTime message s = interrupt s1"
    using assms by (simp add: onmessage_def s1_def)
  have cases: "s1 = s \<or> (\<exists>b. s1 = enqueue currentTime b s)"
    by (auto simp add: s1_def split: option.splits)
  have keep: "set (sourcesRef s) \<subseteq> set (sourcesRef s1)"
    using cases
  proof (elim disjE exE)
    fix b assume e: "s1 = enqueue currentTime b s"
    show ?thesis
      unfolding e
      by (cases "decodeAudioData b 24000") (auto simp add: enqueue_def Let_def)
  qed simp
  have status: "status_of s1 h = status_of s h" if "h \<in> set (sourcesRef s)" "status_of s h = Playing" for h
    using cases
  proof (elim disjE exE)
    fix b assume e: "s1 = enqueue currentTime b s"
    from that(2) have "h < length (nodes s)"
      by (simp add: status_of_def split: if_splits)
    then show ?thesis
      unfolding e
      by (cases "decodeAudioData b 24000")
         (simp_all add: enqueue_def Let_def status_of_def nth_append)
  qed simp
  have ctx1: "outputContextRef s1 = outputContextRef s"
    using cases by (auto simp add: outputContextRef_enqueue)
  have empty: "sourcesRef (onmessage currentTime message s) = []"
    and zero: "nextStartTimeRef (onmessage currentTime message s) = 0"
    unfolding om by (simp_all add: interrupt_def)
  have stopped: "status_of (onmessage currentTime message s) h \<noteq> Playing
        \<and> (status_of s h = Playing \<longrightarrow> status_of (onmessage currentTime message s) h = Stopped)"
    if h: "h \<in> set (sourcesRef s)" for h
  proof -
    from h keep have "h \<in> set (sourcesRef s1)" by blast
    then have "status_of (interrupt s1) h =
        (if status_of s1 h = Playing then Stopped else status_of s1 h)"
      by (simp add: status_of_interrupt)
    then show ?thesis
      unfolding om using status [OF h] by auto
  qed
  have branch: "status_of (interrupt s) h \<noteq> Playing" if "h \<in> set (sourcesRef s)" for h
    using that by (simp add: status_of_interrupt)
  have fresh: "nodes (onmessage t \<lparr>inlineData = Some b, interrupted = False\<rparr>
                     (onmessage currentTime message s)) =
              nodes (onmessage currentTime message s) @
                [\<lparr>node_start = t, node_duration = duration audioBuffer, node_status = Playing\<rparr>]"
    if t: "0 \<le> t" and b: "b \<noteq> []" and ctx: "outputContextRef s \<noteq> None"
      and dec: "decodeAudioData b 24000 = Inr audioBuffer"
    for t b audioBuffer
  proof -
    have "outputContextRef (onmessage currentTime message s) \<noteq> None"
      unfolding om using ctx by (simp add: interrupt_def ctx1)
    from onmessage_audio [OF b this]
    have "onmessage t \<lparr>inlineData = Some b, interrupted = False\<rparr> (onmessage currentTime message s)
        = enqueue t b (onmessage currentTime message s)" .
    then show ?thesis
      using enqueue_decoded(1) [OF dec, of t "onmessage currentTime message s"] zero t
      by simp
  qed
  from empty zero stopped branch fresh show ?thesis by blast
qed

theorem interrupt_resets_scheduler_witness:
  "interrupted \<lparr>inlineData = None, interrupted = True\<rparr>
   \<and> sourcesRef (onmessage 3 \<lparr>inlineData = None, interrupted = True\<rparr>
        (enqueue 1 [65, 65, 65, 61] (initial_state\<lparr>outputContextRef := Some 7\<rparr>))) = []
   \<and> nextStartTimeRef (onmessage 3 \<lparr>inlineData = None, interrupted = True\<rparr>
        (enqueue 1 [65, 65, 65, 61] (initial_state\<lparr>outputContextRef := Some 7\<rparr>))) = 0
   \<and> sourcesRef (enqueue 1 [65, 65, 65, 61] (initial_state\<lparr>outputContextRef := Some 7\<rparr>)) = [0]
   \<and> status_of (enqueue 1 [65, 65, 65, 61] (initial_state\<lparr>outputContextRef := Some 7\<rparr>)) 0 = Playing
   \<and> status_of (onmessage 3 \<lparr>inlineData = None, interrupted = True\<rparr>
        (enqueue 1 [65, 65, 65, 61] (initial_state\<lparr>outputContextRef := Some 7\<rparr>))) 0 = Stopped
   \<and> (0 :: real) \<le> 4
   \<and> map node_start (nodes (onmessage 4 \<lparr>inlineData = Some [65, 65, 65, 61], interrupted = False\<rparr>
        (onmessage 3 \<lparr>inlineData = None, interrupted = True\<rparr>
          (enqueue 1 [65, 65, 65, 61] (initial_state\<lparr>outputContextRef := Some 7\<rparr>))))) = [1, 4]"
proof -
  let ?stop = "\<lparr>inlineData = None, interrupted = True\<rparr>"
  let ?s = "enqueue 1 [65, 65, 65, 61] (initial_state\<lparr>outputContextRef := Some 7\<rparr>)"
  have flag: "interrupted ?stop" by simp
  have live: "sourcesRef ?s = [0]"
    by (simp add: enqueue_def decode_one_sample initial_state_def Let_def)
  have playing: "status_of ?s 0 = Playing"
    by (simp add: status_of_def enqueue_def decode_one_sample initial_state_def Let_def)
  have ctx: "outputContextRef ?s \<noteq> None"
    by (simp add: outputContextRef_enqueue initial_state_def)
  have ne: "[65, 65, 65, 61 :: nat] \<noteq> []" by simp
  have t4: "(0 :: real) \<le> 4" by simp
  note t = interrupt_resets_scheduler [OF flag, of 3 ?s]
  from t have empty: "sourcesRef (onmessage 3 ?stop ?s) = []"
    and zero: "nextStartTimeRef (onmessage 3 ?stop ?s) = 0"
    by blast+
  from t live playing have stopped: "status_of (onmessage 3 ?stop ?s) 0 = Stopped"
    by simp
  from t t4 ne ctx decode_one_sample
  have "nodes (onmessage 4 \<lparr>inlineData = Some [65, 65, 65, 61], interrupted = False\<rparr>
                     (onmessage 3 ?stop ?s)) =
              nodes (onmessage 3 ?stop ?s) @
                [\<lparr>node_start = 4, node_duration = duration \<lparr>channelData = [0], sampleRate = 24000\<rparr>,
                  node_status = Playing\<rparr>]"
    by blast
  moreover have "map node_start (nodes (onmessage 3 ?stop ?s)) = [1]"
    by (simp add: onmessage_def interrupt_def enqueue_def decode_one_sample initial_state_def
        source_stop_def Let_def)
  ultimately have starts: "map node_start (nodes (onmessage 4
      \<lparr>inlineData = Some [65, 65, 65, 61], interrupted = False\<rparr> (onmessage 3 ?stop ?s))) = [1, 4]"
    by simp
  show ?thesis
    by (rule conjI [OF flag conjI [OF empty conjI [OF zero conjI [OF live conjI [OF playing
        conjI [OF stopped conjI [OF t4 starts]]]]]]])
qed

section \<open>Claims about the session life cycle\<close>

text \<open>
  C8, as the specification states it: every setup failure during \<^verbatim>\<open>connect\<close>, a
  missing credential included, ends in the Error state. With an empty API key the guard
  in front of the \<^verbatim>\<open>try\<close> block sets the error message and returns; the connection
  state stays what it was, here Disconnected.
\<close>

theorem connect_missing_key_counterexample:
  "API_KEY \<lparr>API_KEY = [], newInputContext = Inr 1, newOutputContext = Inr 2,
             inputAnalyser = 3, outputAnalyser = 4, getUserMedia = Inr 5,
             newGoogleGenAI = Inr 6, liveConnect = 7\<rparr> = []
   \<and> connectionState
        (connect \<lparr>API_KEY = [], newInputContext = Inr 1, newOutputContext = Inr 2,
                  inputAnalyser = 3, outputAnalyser = 4, getUserMedia = Inr 5,
                  newGoogleGenAI = Inr 6, liveConnect = 7\<rparr> initial_state) = DISCONNECTED
   \<and> connectionState
        (connect \<lparr>API_KEY = [], newInputContext = Inr 1, newOutputContext = Inr 2,
                  inputAnalyser = 3, outputAnalyser = 4, getUserMedia = Inr 5,
                  newGoogleGenAI = Inr 6, liveConnect = 7\<rparr> initial_state) \<noteq> ERROR
   \<and> error
        (connect \<lparr>API_KEY = [], newInputContext = Inr 1, newOutputContext = Inr 2,
                  inputAnalyser = 3, outputAnalyser = 4, getUserMedia = Inr 5,
                  newGoogleGenAI = Inr 6, liveConnect = 7\<rparr> initial_state)
      = Some ''API Key is missing.''"
  by (simp add: connect_def initial_state_def)

text \<open>
  C8, amended. With an API key present, an exception thrown by any setup step inside the
  \<^verbatim>\<open>try\<close> block of \<^verbatim>\<open>connect\<close> (creating either audio context, obtaining the
  microphone, constructing the client) ends in the Error state with an error message
  set. With the API key missing, \<^verbatim>\<open>connect\<close> only sets the message
  \<^verbatim>\<open>API Key is missing.\<close> and leaves the connection state as it was.
\<close>

theorem connect_failure_states:
  "(API_KEY env \<noteq> [] \<and> setup_throws env \<longrightarrow>
      connectionState (connect env s) = ERROR \<and> error (connect env s) \<noteq> None)
   \<and> (API_KEY env' = [] \<longrightarrow>
      connect env' s = s\<lparr>error := Some ''API Key is missing.''\<rparr>
      \<and> connectionState (connect env' s) = connectionState s)"
proof (intro conjI impI)
  assume a: "API_KEY env \<noteq> [] \<and> setup_throws env"
  then have "isl (connect_try env s)"
    by (auto simp add: setup_throws_def connect_try_def Let_def isl_def split: sum.splits)
  then obtain msg s' where "connect_try env s = Inl (msg, s')"
    by (cases "connect_try env s") auto
  with a show "connectionState (connect env s) = ERROR" "error (connect env s) \<noteq> None"
    by (simp_all add: connect_def)
next
  assume "API_KEY env' = []"
  then show "connect env' s = s\<lparr>error := Some ''API Key is missing.''\<rparr>"
    "connectionState (connect env' s) = connectionState s"
    by (simp_all add: connect_def)
qed

theorem connect_failure_states_witness:
  "API_KEY \<lparr>API_KEY = ''k'', newInputContext = Inr 1, newOutputContext = Inr 2,
             inputAnalyser = 3, outputAnalyser = 4, getUserMedia = Inl ''Permission denied'',
             newGoogleGenAI = Inr 6, liveConnect = 7\<rparr> \<noteq> []
   \<and> setup_throws \<lparr>API_KEY = ''k'', newInputContext = Inr 1, newOutputContext = Inr 2,
             inputAnalyser = 3, outputAnalyser = 4, getUserMedia = Inl ''Permission denied'',
             newGoogleGenAI = Inr 6, liveConnect = 7\<rparr>
   \<and> connectionState
        (connect \<lparr>API_KEY = ''k'', newInputContext = Inr 1, newOutputContext = Inr 2,
             inputAnalyser = 3, outputAnalyser = 4, getUserMedia = Inl ''Permission denied'',
             newGoogleGenAI = Inr 6, liveConnect = 7\<rparr> initial_state) = ERROR
   \<and> API_KEY \<lparr>API_KEY = [], newInputContext = Inr 1, newOutputContext = Inr 2,
             inputAnalyser = 3, outputAnalyser = 4, getUserMedia = Inr 5,
             newGoogleGenAI = Inr 6, liveConnect = 7\<rparr> = []
   \<and> connectionState
        (connect \<lparr>API_KEY = [], newInputContext = Inr 1, newOutputContext = Inr 2,
             inputAnalyser = 3, outputAnalyser = 4, getUserMedia = Inr 5,
             newGoogleGenAI = Inr 6, liveConnect = 7\<rparr> initial_state)
      = connectionState initial_state"
proof -
  let ?denied = "\<lparr>API_KEY = ''k'', newInputContext = Inr 1, newOutputContext = Inr 2,
             inputAnalyser = 3, outputAnalyser = 4, getUserMedia = Inl ''Permission denied'',
             newGoogleGenAI = Inr 6, liveConnect = 7\<rparr>"
  let ?nokey = "\<lparr>API_KEY = [], newInputContext = Inr 1, newOutputContext = Inr 2,
             inputAnalyser = 3, outputAnalyser = 4, getUserMedia = Inr 5,
             newGoogleGenAI = Inr 6, liveConnect = 7\<rparr>"
  have key: "API_KEY ?denied \<noteq> []" by simp
  have throws: "setup_throws ?denied" by (simp add: setup_throws_def)
  have nokey: "API_KEY ?nokey = []" by simp
  note t = connect_failure_states [of ?denied initial_state ?nokey]
  from t key throws have err: "connectionState (connect ?denied initial_state) = ERROR"
    by blast
  from t nokey have same: "connectionState (connect ?nokey initial_state)
      = connectionState initial_state"
    by blast
  show ?thesis
    by (rule conjI [OF key conjI [OF throws conjI [OF err conjI [OF nokey same]]]])
qed

text \<open>
  C9. \<^verbatim>\<open>disconnect\<close> never throws, whatever refs are set: it always returns a state
  that is Disconnected, has the cursor at 0, no live handle and every resource ref
  cleared. Called in the Disconnected state with all refs already null, the cursor at 0
  and no live handle, it changes nothing at all. Calling it a second time returns the
  state the first call left, with no further call on any resource.
\<close>

theorem disconnect_idempotent:
  "\<exists>s'. disconnect s = Inr s'
     \<and> connectionState s' = DISCONNECTED \<and> nextStartTimeRef s' = 0 \<and> sourcesRef s' = []
     \<and> released s'
     \<and> disconnect s' = Inr s'
     \<and> (connectionState s = DISCONNECTED \<and> released s \<and> nextStartTimeRef s = 0
          \<and> sourcesRef s = [] \<longrightarrow> s' = s)"
proof -
  let ?s' = "disconnected_form s"
  have first: "disconnect s = Inr ?s'"
    by (rule disconnect_eq)
  have fields: "connectionState ?s' = DISCONNECTED" "nextStartTimeRef ?s' = 0"
    "sourcesRef ?s' = []" "released ?s'"
    by (simp_all add: disconnected_form_def released_def)
  have "disconnected_form ?s' = ?s'"
    by (simp add: disconnected_form_def)
  then have again: "disconnect ?s' = Inr ?s'"
    by (simp only: disconnect_eq)
  have noop: "?s' = s"
    if "connectionState s = DISCONNECTED \<and> released s \<and> nextStartTimeRef s = 0
          \<and> sourcesRef s = []"
    using that by (simp add: disconnected_form_def released_def)
  from first fields again noop show ?thesis by blast
qed

theorem disconnect_idempotent_witness:
  "connectionState initial_state = DISCONNECTED
   \<and> released initial_state
   \<and> nextStartTimeRef initial_state = 0
   \<and> sourcesRef initial_state = []
   \<and> disconnect initial_state = Inr initial_state"
proof -
  have a: "connectionState initial_state = DISCONNECTED"
    and b: "released initial_state"
    and c: "nextStartTimeRef initial_state = 0"
    and d: "sourcesRef initial_state = []"
    by (simp_all add: initial_state_def released_def)
  from disconnect_idempotent [of initial_state] a b c d
  have e: "disconnect initial_state = Inr initial_state"
    by blast
  show ?thesis
    by (rule conjI [OF a conjI [OF b conjI [OF c conjI [OF d e]]]])
qed

end
